theory Spec2Isabelle
  imports Main "HOL-Library.Multiset" "HOL-Library.AList" "HOL-Library.Char_ord" "HOL-Library.List_Lexorder"
begin

section \<open>Go primitives used by the embedding\<close>

text \<open>
  A Go byte slice and a Go string are both modelled as a \<open>char list\<close> (one \<open>char\<close>
  per byte).  The builtin \<open>copy(dst, src)\<close> overwrites the first
  \<open>min(len(dst), len(src))\<close> elements of \<open>dst\<close>; \<open>go_copy\<close> returns the updated
  \<open>dst\<close>, and \<open>copy_at buf off src\<close> is \<open>copy(buf[off:], src)\<close> seen from the
  underlying array \<open>buf\<close>.
\<close>

type_synonym bytes = "char list"

definition go_copy :: "'a list \<Rightarrow> 'a list \<Rightarrow> 'a list" where
  "go_copy dst src = take (length dst) src @ drop (length src) dst"

definition copy_at :: "'a list \<Rightarrow> nat \<Rightarrow> 'a list \<Rightarrow> 'a list" where
  "copy_at b off src = take off b @ go_copy (drop off b) src"

section \<open>internal/runner/runner.go: the ring buffer\<close>

text \<open>
  \<open>RingBuffer\<close> has the four fields of the Go struct.  \<open>size\<close> and \<open>pos\<close> are Go
  \<open>int\<close>s that never become negative (\<open>make\<close> panics on a negative length), so they
  are natural numbers here.
\<close>

record RingBuffer =
  buf :: bytes
  size :: nat
  pos :: nat
  full :: bool

datatype panic = MakeNegativeLen | CloseOfClosedChannel | IndexOutOfRange

definition NewRingBuffer :: "int \<Rightarrow> panic + RingBuffer" where
  "NewRingBuffer n =
     (if n < 0 then Inl MakeNegativeLen
      else Inr \<lparr>buf = replicate (nat n) (CHR 0x00), size = nat n, pos = 0, full = False\<rparr>)"

text \<open>
  \<open>RingBuffer.Write\<close>: the result is the updated buffer and the returned count (the
  returned error is always nil).
\<close>

definition RingBuffer_Write :: "RingBuffer \<Rightarrow> bytes \<Rightarrow> RingBuffer \<times> nat" where
  "RingBuffer_Write rb p =
     (let n = length p in
      if n \<ge> size rb then
        (rb\<lparr>buf := go_copy (buf rb) (drop (n - size rb) p), pos := 0, full := True\<rparr>, n)
      else
        let oldPos = pos rb;
            first = size rb - pos rb;
            b = (if first \<ge> n then copy_at (buf rb) (pos rb) p
                 else go_copy (copy_at (buf rb) (pos rb) (take first p)) (drop first p));
            newPos = (pos rb + n) mod size rb
        in (rb\<lparr>buf := b, pos := newPos,
               full := (if \<not> full rb \<and> newPos \<le> oldPos then True else full rb)\<rparr>, n))"

definition RingBuffer_String :: "RingBuffer \<Rightarrow> string" where
  "RingBuffer_String rb =
     (if \<not> full rb then take (pos rb) (buf rb)
      else
        let out = replicate (size rb) (CHR 0x00);
            src = drop (pos rb) (buf rb);
            n = min (length out) (length src);
            out1 = go_copy out src
        in copy_at out1 n (take (pos rb) (buf rb)))"

text \<open>A sequence of writes: the final buffer and the count each write returned.\<close>

fun RingBuffer_writes :: "RingBuffer \<Rightarrow> bytes list \<Rightarrow> RingBuffer \<times> nat list" where
  "RingBuffer_writes rb [] = (rb, [])"
| "RingBuffer_writes rb (p # ps) =
     (let (rb1, n) = RingBuffer_Write rb p;
          (rb2, ns) = RingBuffer_writes rb1 ps
      in (rb2, n # ns))"

text \<open>
  What the buffer holds, read in the order \<open>String\<close> reads it, and the relation between
  a buffer and the stream \<open>B\<close> written so far that the writes are meant to keep: the
  held bytes are the last \<open>size\<close> bytes of \<open>B\<close>, and \<open>full\<close> is only set once \<open>B\<close> has
  at least \<open>size\<close> bytes.
\<close>

definition rb_content :: "RingBuffer \<Rightarrow> bytes" where
  "rb_content rb = (if full rb then drop (pos rb) (buf rb) @ take (pos rb) (buf rb) else take (pos rb) (buf rb))"

definition rb_inv :: "RingBuffer \<Rightarrow> bytes \<Rightarrow> bool" where
  "rb_inv rb B =
     (length (buf rb) = size rb \<and> (pos rb < size rb \<or> pos rb = 0 \<and> size rb = 0) \<and>
      (if full rb then size rb \<le> length B else pos rb = length B) \<and>
      rb_content rb = drop (length B - size rb) B)"

section \<open>internal/runlog/manager.go: the capped file writer\<close>

text \<open>
  The underlying \<open>*os.File\<close> is modelled by the bytes it holds.  \<open>file.Write\<close> can
  fail: \<open>FileOk\<close> stores all bytes and returns \<open>(len, nil)\<close>; \<open>FileErr k\<close> stores the
  first \<open>k\<close> bytes and returns a non-nil error.
\<close>

datatype file_behaviour = FileOk | FileErr nat

definition File_Write :: "bytes \<Rightarrow> file_behaviour \<Rightarrow> bytes \<Rightarrow> bytes \<times> nat \<times> bool" where
  "File_Write f fb p =
     (case fb of
        FileOk \<Rightarrow> (f @ p, length p, False)
      | FileErr k \<Rightarrow> (f @ take k p, min k (length p), True))"

record CappedFileWriter =
  file_content :: bytes
  maxBytes :: int
  written :: int
  truncated :: bool

definition NewCappedFileWriter :: "bytes \<Rightarrow> int \<Rightarrow> CappedFileWriter" where
  "NewCappedFileWriter f m = \<lparr>file_content = f, maxBytes = m, written = 0, truncated = False\<rparr>"

text \<open>
  \<open>CappedFileWriter.Write\<close>: the updated writer and the returned count (the returned
  error is always nil).
\<close>

definition CappedFileWriter_Write ::
    "CappedFileWriter \<Rightarrow> file_behaviour \<Rightarrow> bytes \<Rightarrow> CappedFileWriter \<times> nat" where
  "CappedFileWriter_Write w fb p =
     (if maxBytes w \<le> 0 then (w\<lparr>truncated := True\<rparr>, length p)
      else
        let remaining = maxBytes w - written w in
        if remaining \<le> 0 then (w\<lparr>truncated := True\<rparr>, length p)
        else
          let cut = int (length p) > remaining;
              toWrite = (if cut then take (nat remaining) p else p);
              w1 = (if cut then w\<lparr>truncated := True\<rparr> else w);
              (f', n, err) = File_Write (file_content w1) fb toWrite
          in if err then (w1\<lparr>file_content := f'\<rparr>, length p)
             else (w1\<lparr>file_content := f', written := written w1 + int n\<rparr>, length p))"

definition WrittenBytes :: "CappedFileWriter \<Rightarrow> int" where
  "WrittenBytes w = written w"

definition Truncated :: "CappedFileWriter \<Rightarrow> bool" where
  "Truncated w = truncated w"

fun CappedFileWriter_writes ::
    "CappedFileWriter \<Rightarrow> (bytes \<times> file_behaviour) list \<Rightarrow> CappedFileWriter \<times> nat list" where
  "CappedFileWriter_writes w [] = (w, [])"
| "CappedFileWriter_writes w ((p, fb) # ps) =
     (let (w1, n) = CappedFileWriter_Write w fb p;
          (w2, ns) = CappedFileWriter_writes w1 ps
      in (w2, n # ns))"

text \<open>
  The relation between a capped writer with cap \<open>C\<close> on a file that held \<open>f\<close> and the
  stream \<open>B\<close> written so far.
\<close>

definition cw_inv :: "CappedFileWriter \<Rightarrow> bytes \<Rightarrow> int \<Rightarrow> bytes \<Rightarrow> bool" where
  "cw_inv w f C B =
     (maxBytes w = C \<and> file_content w = f @ take (nat C) B \<and>
      written w = min (int (length B)) C \<and> (truncated w \<longleftrightarrow> int (length B) > C))"

section \<open>internal/runner/env.go: the subprocess environment\<close>

text \<open>
  A Go \<open>map[string]string\<close> is an association list with \<open>AList.update\<close> as
  assignment \<open>m[k] = v\<close>.  Go iterates a map in an unspecified order; the list order
  here is one such order, and the properties below speak of membership only.
  \<open>os.Environ()\<close> is the parameter \<open>environ\<close>.  \<open>Metadata\<close> (\<open>map[string]any\<close>) is
  never read by the runner and is left out of the record.
\<close>

type_synonym strmap = "(string \<times> string) list"

record JobContext =
  ctx_JobName :: string
  ctx_Schedule :: string
  ctx_Trigger :: string
  ctx_Env :: strmap

text \<open>The inner loop of \<open>BuildEnv\<close>: split an entry at its first \<open>=\<close>, if it has one.\<close>

definition split_env :: "string \<Rightarrow> (string \<times> string) option" where
  "split_env e =
     (if CHR ''='' \<in> set e
      then Some (takeWhile (\<lambda>c. c \<noteq> CHR ''='') e, tl (dropWhile (\<lambda>c. c \<noteq> CHR ''='') e))
      else None)"

definition overlay :: "strmap \<Rightarrow> strmap \<Rightarrow> strmap" where
  "overlay m kvs = fold (\<lambda>(k, v) acc. AList.update k v acc) kvs m"

definition BuildEnv :: "string list \<Rightarrow> strmap \<Rightarrow> JobContext \<Rightarrow> string list" where
  "BuildEnv environ base job =
     (let envMap0 = fold (\<lambda>e acc. case split_env e of
                                    Some (k, v) \<Rightarrow> AList.update k v acc
                                  | None \<Rightarrow> acc) environ [];
          envMap1 = overlay envMap0 base;
          envMap2 = overlay envMap1 (ctx_Env job);
          envMap3 = AList.update ''PICOCRON_JOB_NAME'' (ctx_JobName job) envMap2;
          envMap4 = AList.update ''PICOCRON_TRIGGER'' (ctx_Trigger job) envMap3
      in map (\<lambda>(k, v). k @ ''='' @ v) envMap4)"

section \<open>internal/store: the run store\<close>

text \<open>
  A \<open>time.Time\<close> is the instant it denotes, in nanoseconds since the zero time, so
  \<open>IsZero\<close> is equality with 0 and \<open>UTC()\<close> is the identity.  The standard library's
  \<open>Time.Format(time.RFC3339Nano)\<close> and \<open>time.Parse(time.RFC3339Nano, _)\<close> are the
  parameters \<open>fmt\<close> and \<open>prs\<close> of the functions below; \<open>NewRunID()\<close> and
  \<open>time.Now()\<close> are passed in as the values they return.
\<close>

type_synonym time = int

record Run =
  ID :: string
  JobName :: string
  Status :: string
  ExitCode :: int
  StartedAt :: time
  FinishedAt :: "time option"
  DurationMs :: int
  StdoutTail :: string
  StderrTail :: string
  ErrorMsg :: string
  Trigger :: string
  LLMAnalysis :: string
  LLMTokensUsed :: int
  CreatedAt :: time

record ListOpts =
  lo_JobName :: string
  Limit :: int
  Offset :: int

text \<open>A row of the table \<open>runs\<close>; a nullable column is an \<open>option\<close>.\<close>

record row =
  c_id :: string
  c_job_name :: string
  c_status :: string
  c_exit_code :: "int option"
  c_started_at :: string
  c_finished_at :: "string option"
  c_duration_ms :: "int option"
  c_stdout_tail :: "string option"
  c_stderr_tail :: "string option"
  c_error_msg :: "string option"
  c_trigger_type :: string
  c_llm_analysis :: "string option"
  c_llm_tokens_used :: "int option"
  c_created_at :: string

text \<open>
  The database: the rows of \<open>runs\<close> in insertion order, and whether \<open>Close\<close> has been
  called (every later statement then fails).
\<close>

record SQLiteStore =
  runs :: "row list"
  closed :: bool

datatype db_error =
    DatabaseClosed
  | SyntaxError string
  | ParseStartedAt
  | ParseCreatedAt
  | ParseFinishedAt

definition Close :: "SQLiteStore \<Rightarrow> SQLiteStore" where
  "Close s = s\<lparr>closed := True\<rparr>"

definition formatTime :: "(time \<Rightarrow> string) \<Rightarrow> time \<Rightarrow> string" where
  "formatTime fmt t = fmt t"

definition formatTimePtr :: "(time \<Rightarrow> string) \<Rightarrow> time option \<Rightarrow> string option" where
  "formatTimePtr fmt t = (case t of None \<Rightarrow> None | Some u \<Rightarrow> Some (fmt u))"

definition parseTime :: "(string \<Rightarrow> time option) \<Rightarrow> string \<Rightarrow> time option" where
  "parseTime prs s = prs s"

text \<open>\<open>parseTimePtr\<close>: \<open>None\<close> is the parse error, \<open>Some None\<close> the nil pointer.\<close>

definition parseTimePtr :: "(string \<Rightarrow> time option) \<Rightarrow> string option \<Rightarrow> time option option" where
  "parseTimePtr prs ns =
     (case ns of
        None \<Rightarrow> Some None
      | Some s \<Rightarrow> (case parseTime prs s of None \<Rightarrow> None | Some t \<Rightarrow> Some (Some t)))"

definition nullString :: "string \<Rightarrow> string option" where
  "nullString s = (if s = [] then None else Some s)"

definition nullInt64 :: "int \<Rightarrow> int option" where
  "nullInt64 v = (if v = 0 then None else Some v)"

text \<open>The values bound to the fourteen placeholders of the \<open>INSERT\<close>.\<close>

definition insert_values :: "(time \<Rightarrow> string) \<Rightarrow> Run \<Rightarrow> row" where
  "insert_values fmt run =
     \<lparr>c_id = ID run,
      c_job_name = JobName run,
      c_status = Status run,
      c_exit_code = Some (ExitCode run),
      c_started_at = formatTime fmt (StartedAt run),
      c_finished_at = formatTimePtr fmt (FinishedAt run),
      c_duration_ms = Some (DurationMs run),
      c_stdout_tail = nullString (StdoutTail run),
      c_stderr_tail = nullString (StderrTail run),
      c_error_msg = nullString (ErrorMsg run),
      c_trigger_type = Trigger run,
      c_llm_analysis = nullString (LLMAnalysis run),
      c_llm_tokens_used = nullInt64 (LLMTokensUsed run),
      c_created_at = formatTime fmt (CreatedAt run)\<rparr>"

text \<open>\<open>ON CONFLICT(id) DO UPDATE SET ...\<close>: the nine columns taken from \<open>excluded\<close>.\<close>

definition on_conflict_update :: "row \<Rightarrow> row \<Rightarrow> row" where
  "on_conflict_update old excluded =
     old\<lparr>c_status := c_status excluded,
         c_exit_code := c_exit_code excluded,
         c_finished_at := c_finished_at excluded,
         c_duration_ms := c_duration_ms excluded,
         c_stdout_tail := c_stdout_tail excluded,
         c_stderr_tail := c_stderr_tail excluded,
         c_error_msg := c_error_msg excluded,
         c_llm_analysis := c_llm_analysis excluded,
         c_llm_tokens_used := c_llm_tokens_used excluded\<rparr>"

fun upsert :: "row \<Rightarrow> row list \<Rightarrow> row list" where
  "upsert r [] = [r]"
| "upsert r (x # xs) =
     (if c_id x = c_id r then on_conflict_update x r # xs else x # upsert r xs)"

text \<open>
  \<open>RecordRun\<close> writes through the pointer \<open>run\<close> before it executes the statement, so
  the caller's record is part of the result, with the error of \<open>ExecContext\<close> if any.
\<close>

definition RecordRun ::
    "(time \<Rightarrow> string) \<Rightarrow> string \<Rightarrow> time \<Rightarrow> SQLiteStore \<Rightarrow> Run \<Rightarrow> Run \<times> SQLiteStore \<times> db_error option" where
  "RecordRun fmt newRunID now s run =
     (let run1 = (if ID run = [] then run\<lparr>ID := newRunID\<rparr> else run);
          run2 = (if CreatedAt run1 = 0 then run1\<lparr>CreatedAt := now\<rparr> else run1)
      in if closed s then (run2, s, Some DatabaseClosed)
         else (run2, s\<lparr>runs := upsert (insert_values fmt run2) (runs s)\<rparr>, None))"

definition scanRun :: "(string \<Rightarrow> time option) \<Rightarrow> row \<Rightarrow> db_error + Run" where
  "scanRun prs rw =
     (case parseTime prs (c_started_at rw) of
        None \<Rightarrow> Inl ParseStartedAt
      | Some startedAt \<Rightarrow>
     (case parseTime prs (c_created_at rw) of
        None \<Rightarrow> Inl ParseCreatedAt
      | Some createdAt \<Rightarrow>
     (case parseTimePtr prs (c_finished_at rw) of
        None \<Rightarrow> Inl ParseFinishedAt
      | Some finishedAt \<Rightarrow>
          Inr \<lparr>ID = c_id rw,
               JobName = c_job_name rw,
               Status = c_status rw,
               ExitCode = (case c_exit_code rw of Some v \<Rightarrow> v | None \<Rightarrow> 0),
               StartedAt = startedAt,
               FinishedAt = finishedAt,
               DurationMs = (case c_duration_ms rw of Some v \<Rightarrow> v | None \<Rightarrow> 0),
               StdoutTail = (case c_stdout_tail rw of Some v \<Rightarrow> v | None \<Rightarrow> []),
               StderrTail = (case c_stderr_tail rw of Some v \<Rightarrow> v | None \<Rightarrow> []),
               ErrorMsg = (case c_error_msg rw of Some v \<Rightarrow> v | None \<Rightarrow> []),
               Trigger = c_trigger_type rw,
               LLMAnalysis = (case c_llm_analysis rw of Some v \<Rightarrow> v | None \<Rightarrow> []),
               LLMTokensUsed = (case c_llm_tokens_used rw of Some v \<Rightarrow> v | None \<Rightarrow> 0),
               CreatedAt = createdAt\<rparr>)))"

text \<open>\<open>GetRun\<close>: \<open>Inr None\<close> is the result \<open>(nil, nil)\<close> for \<open>sql.ErrNoRows\<close>.\<close>

definition GetRun :: "(string \<Rightarrow> time option) \<Rightarrow> SQLiteStore \<Rightarrow> string \<Rightarrow> db_error + Run option" where
  "GetRun prs s rid =
     (if closed s then Inl DatabaseClosed
      else case find (\<lambda>rw. c_id rw = rid) (runs s) of
             None \<Rightarrow> Inr None
           | Some rw \<Rightarrow> (case scanRun prs rw of Inl e \<Rightarrow> Inl e | Inr run \<Rightarrow> Inr (Some run)))"

text \<open>
  The query of \<open>ListRuns\<close>.  The column \<open>started_at\<close> is \<open>TEXT\<close>, so
  \<open>ORDER BY started_at DESC\<close> compares the stored text bytewise (the order of
  \<open>char list\<close>); rows with equal keys come in an order SQL leaves open, here the
  order of insertion (the sort is stable, and it is applied to the reversed table).
  SQLite accepts \<open>OFFSET\<close> only after \<open>LIMIT\<close>, so the text built for \<open>Limit \<le> 0\<close>
  and \<open>Offset > 0\<close> is rejected by the parser.
\<close>

definition select_runs :: "SQLiteStore \<Rightarrow> ListOpts \<Rightarrow> db_error + row list" where
  "select_runs s opts =
     (if closed s then Inl DatabaseClosed
      else
        let matching = (if lo_JobName opts \<noteq> []
                        then filter (\<lambda>rw. c_job_name rw = lo_JobName opts) (runs s)
                        else runs s);
            ordered = rev (sort_key c_started_at (rev matching))
        in if Limit opts > 0 then
             (if Offset opts > 0
              then Inr (take (nat (Limit opts)) (drop (nat (Offset opts)) ordered))
              else Inr (take (nat (Limit opts)) ordered))
           else if Offset opts > 0 then Inl (SyntaxError ''near OFFSET: syntax error'')
           else Inr ordered)"

fun scan_rows :: "(string \<Rightarrow> time option) \<Rightarrow> row list \<Rightarrow> db_error + Run list" where
  "scan_rows prs [] = Inr []"
| "scan_rows prs (rw # rws) =
     (case scanRun prs rw of
        Inl e \<Rightarrow> Inl e
      | Inr r \<Rightarrow> (case scan_rows prs rws of Inl e \<Rightarrow> Inl e | Inr rs \<Rightarrow> Inr (r # rs)))"

definition ListRuns :: "(string \<Rightarrow> time option) \<Rightarrow> SQLiteStore \<Rightarrow> ListOpts \<Rightarrow> db_error + Run list" where
  "ListRuns prs s opts =
     (case select_runs s opts of Inl e \<Rightarrow> Inl e | Inr rws \<Rightarrow> scan_rows prs rws)"

section \<open>internal/realtime: the event broker\<close>

record Event =
  ev_ID :: int
  ev_Type :: string
  ev_JobName :: string
  ev_RunID :: string
  ev_Action :: string
  ev_Status :: string
  ev_Trigger :: string
  ev_At :: time

text \<open>
  A subscriber's channel (\<open>make(chan Event, 32)\<close>) is the queue of events sent and
  not yet received; \<open>subs\<close> maps the subscriber's number to its channel.
\<close>

record Broker =
  nextID :: int
  nextCh :: int
  subs :: "(int \<times> Event list) list"

definition NewBroker :: Broker where
  "NewBroker = \<lparr>nextID = 0, nextCh = 0, subs = []\<rparr>"

definition Publish :: "time \<Rightarrow> Broker \<Rightarrow> Event \<Rightarrow> Broker" where
  "Publish now b evt =
     (let evt1 = evt\<lparr>ev_ID := nextID b + 1\<rparr>;
          evt2 = (if ev_At evt1 = 0 then evt1\<lparr>ev_At := now\<rparr> else evt1)
      in b\<lparr>nextID := nextID b + 1,
           subs := map (\<lambda>(i, ch). (i, if length ch < 32 then ch @ [evt2] else ch)) (subs b)\<rparr>)"

definition Subscribe :: "Broker \<Rightarrow> int \<times> Broker" where
  "Subscribe b =
     (let i = nextCh b + 1 in (i, b\<lparr>nextCh := i, subs := AList.update i [] (subs b)\<rparr>))"

definition cancel :: "int \<Rightarrow> Broker \<Rightarrow> Broker" where
  "cancel i b = b\<lparr>subs := AList.delete i (subs b)\<rparr>"

section \<open>internal/runner/runner.go: running a command\<close>

text \<open>
  What the subprocess does is an input of the model: the chunks it writes to each
  stream (each with the behaviour of the log file at that write), the error
  \<open>cmd.Run()\<close> returns (\<open>ExitError c msg\<close> is an \<open>*exec.ExitError\<close> with
  \<open>ExitCode() = c\<close> and \<open>Error() = msg\<close>), whether the context's deadline had passed
  when it returned, and the measured duration.
\<close>

datatype run_error = ExitError int string | OtherError string

record proc_outcome =
  po_stdout :: "(bytes \<times> file_behaviour) list"
  po_stderr :: "(bytes \<times> file_behaviour) list"
  po_err :: "run_error option"
  po_deadline_passed :: bool
  po_duration_ms :: int

record RunResult =
  res_ExitCode :: int
  res_Stdout :: string
  res_Stderr :: string
  res_DurationMs :: int
  res_Error :: string
  res_StdoutLogPath :: string
  res_StderrLogPath :: string
  res_StdoutLogBytes :: int
  res_StderrLogBytes :: int
  res_StdoutTruncated :: bool
  res_StderrTruncated :: bool
  res_LogStorageWarning :: string

text \<open>The only \<open>io.Writer\<close>s the daemon passes as extra writers are capped file writers.\<close>

record RunOptions =
  ExtraStdout :: "CappedFileWriter option"
  ExtraStderr :: "CappedFileWriter option"
  WorkDir :: string

text \<open>The \<open>exec.Cmd\<close> that is started.\<close>

record invocation =
  inv_args :: "string list"
  inv_env :: "string list"
  inv_dir :: string
  inv_timeout :: "int option"

definition ringBufSize :: int where
  "ringBufSize = 64 * 1024"

text \<open>
  \<open>teeWriter.Write\<close> for one chunk; with a nil secondary, \<open>newTeeWriter\<close> returns the
  primary itself.
\<close>

definition tee_Write ::
    "RingBuffer \<times> CappedFileWriter option \<Rightarrow> bytes \<times> file_behaviour \<Rightarrow> RingBuffer \<times> CappedFileWriter option" where
  "tee_Write t chunk =
     (case t of (primary, secondary) \<Rightarrow>
      case chunk of (p, fb) \<Rightarrow>
        (fst (RingBuffer_Write primary p),
         case secondary of
           None \<Rightarrow> None
         | Some w \<Rightarrow> Some (fst (CappedFileWriter_Write w fb p))))"

definition Runner_Run ::
    "string list \<Rightarrow> string \<Rightarrow> JobContext \<Rightarrow> int \<Rightarrow> RunOptions option \<Rightarrow> proc_outcome
       \<Rightarrow> panic + (RunResult \<times> RunOptions option \<times> invocation)" where
  "Runner_Run environ command job timeout opts po =
     (let cmd = \<lparr>inv_args = [''sh'', ''-c'', command],
                 inv_env = BuildEnv environ [] job,
                 inv_dir = (case opts of
                              Some os \<Rightarrow> (if WorkDir os \<noteq> [] then WorkDir os else [])
                            | None \<Rightarrow> []),
                 inv_timeout = (if timeout > 0 then Some timeout else None)\<rparr>
      in case NewRingBuffer ringBufSize of
           Inl e \<Rightarrow> Inl e
         | Inr stdoutBuf0 \<Rightarrow>
       (case NewRingBuffer ringBufSize of
           Inl e \<Rightarrow> Inl e
         | Inr stderrBuf0 \<Rightarrow>
           let extraOut = (case opts of Some os \<Rightarrow> ExtraStdout os | None \<Rightarrow> None);
               extraErr = (case opts of Some os \<Rightarrow> ExtraStderr os | None \<Rightarrow> None);
               (stdoutBuf, extraOut1) = foldl tee_Write (stdoutBuf0, extraOut) (po_stdout po);
               (stderrBuf, extraErr1) = foldl tee_Write (stderrBuf0, extraErr) (po_stderr po);
               result0 = \<lparr>res_ExitCode = 0,
                          res_Stdout = RingBuffer_String stdoutBuf,
                          res_Stderr = RingBuffer_String stderrBuf,
                          res_DurationMs = po_duration_ms po,
                          res_Error = [],
                          res_StdoutLogPath = [], res_StderrLogPath = [],
                          res_StdoutLogBytes = 0, res_StderrLogBytes = 0,
                          res_StdoutTruncated = False, res_StderrTruncated = False,
                          res_LogStorageWarning = []\<rparr>;
               result =
                 (case po_err po of
                    None \<Rightarrow> result0
                  | Some err \<Rightarrow>
                      result0\<lparr>res_Error :=
                                 (if timeout > 0 \<and> po_deadline_passed po then ''timeout''
                                  else (case err of ExitError c msg \<Rightarrow> msg | OtherError msg \<Rightarrow> msg)),
                               res_ExitCode :=
                                 (case err of ExitError c msg \<Rightarrow> c | OtherError msg \<Rightarrow> - 1)\<rparr>);
               opts1 = (case opts of
                          Some os \<Rightarrow> Some (os\<lparr>ExtraStdout := extraOut1, ExtraStderr := extraErr1\<rparr>)
                        | None \<Rightarrow> None)
           in Inr (result, opts1, cmd)))"

section \<open>internal/config: the job definition\<close>

text \<open>
  \<open>Analyze\<close> and \<open>Metadata\<close> are not read by the functions modelled here and are left
  out.  \<open>time.ParseDuration\<close> is the parameter \<open>pd\<close>: \<open>None\<close> is its error.
\<close>

record Job =
  Name :: string
  Schedule :: string
  Command :: string
  WorkingDir :: string
  Executor :: string
  Timeout :: string
  Env :: strmap
  Enabled :: "bool option"
  OnSuccess :: "string list"
  OnFailure :: "string list"
  FilePath :: string

definition IsEnabled :: "Job \<Rightarrow> bool" where
  "IsEnabled j = (case Enabled j of None \<Rightarrow> True | Some b \<Rightarrow> b)"

definition ParseTimeout :: "(string \<Rightarrow> int option) \<Rightarrow> Job \<Rightarrow> int option" where
  "ParseTimeout pd j = (if Timeout j = [] then Some 0 else pd (Timeout j))"

section \<open>cmd/cronbat/main.go: executing a job\<close>

text \<open>
  The variables the closure \<open>executeJob\<close> captures and changes, with the log files
  written (job name, run id, the two closed writers) and the subprocesses started.
  Lines written with \<open>log.Printf\<close> are not part of the state.
\<close>

record daemon =
  jobMap :: "(string \<times> Job) list"
  st :: SQLiteStore
  events :: Broker
  runLogsEnabled :: bool
  maxBytesPerStream :: int
  logFiles :: "(string \<times> string \<times> CappedFileWriter \<times> CappedFileWriter) list"
  processes :: "invocation list"

text \<open>
  What one execution reads from outside: the environment, the standard library's
  parser and formatters, the \<open>k\<close>-th clock reading and the \<open>k\<close>-th fresh run id of this
  execution, the two paths \<open>Manager.Paths\<close> computes (no property below depends on
  them), whether the log files could be opened, what the subprocess did, and the
  error of closing the log files.
\<close>

record world =
  w_environ :: "string list"
  w_parseDuration :: "string \<Rightarrow> int option"
  w_fmt :: "time \<Rightarrow> string"
  w_now :: "nat \<Rightarrow> time"
  w_newRunID :: "nat \<Rightarrow> string"
  w_paths :: "string \<Rightarrow> string \<Rightarrow> string \<times> string"
  w_openOk :: bool
  w_proc :: proc_outcome
  w_closeErr :: "string option"

text \<open>Lines 249 to 261: the terminal record composed from the runner's result.\<close>

definition finish_run :: "Run \<Rightarrow> RunResult \<Rightarrow> time \<Rightarrow> Run" where
  "finish_run run result finishedAt =
     (let status = (if res_ExitCode result \<noteq> 0 \<or> res_Error result \<noteq> [] then ''failure''
                    else ''success'')
      in run\<lparr>Status := status,
             ExitCode := res_ExitCode result,
             FinishedAt := Some finishedAt,
             DurationMs := res_DurationMs result,
             StdoutTail := res_Stdout result,
             StderrTail := res_Stderr result,
             ErrorMsg := res_Error result\<rparr>)"

text \<open>Lines 190 to 196: the job context handed to the runner.\<close>

definition job_context :: "Job \<Rightarrow> string \<Rightarrow> JobContext" where
  "job_context j trigger =
     \<lparr>ctx_JobName = Name j, ctx_Schedule = Schedule j, ctx_Trigger = trigger, ctx_Env = Env j\<rparr>"

text \<open>
  Lines 220 to 233: the log writers, opened when run logs are enabled and
  \<open>OpenRunWriters\<close> succeeds, and the runner's options.
\<close>

definition open_writers :: "world \<Rightarrow> daemon \<Rightarrow> (CappedFileWriter \<times> CappedFileWriter) option" where
  "open_writers w d =
     (if runLogsEnabled d \<and> w_openOk w
      then Some (NewCappedFileWriter [] (maxBytesPerStream d),
                 NewCappedFileWriter [] (maxBytesPerStream d))
      else None)"

definition run_options :: "world \<Rightarrow> daemon \<Rightarrow> Job \<Rightarrow> RunOptions" where
  "run_options w d j =
     \<lparr>ExtraStdout = map_option fst (open_writers w d),
      ExtraStderr = map_option snd (open_writers w d),
      WorkDir = WorkingDir j\<rparr>"

definition executeJob :: "world \<Rightarrow> daemon \<Rightarrow> string \<Rightarrow> string \<Rightarrow> panic + daemon" where
  "executeJob w d jobName trigger =
     (case map_of (jobMap d) jobName of
        None \<Rightarrow> Inr d
      | Some j \<Rightarrow>
        if \<not> IsEnabled j then Inr d
        else
          (case ParseTimeout (w_parseDuration w) j of
             None \<Rightarrow> Inr d
           | Some timeout \<Rightarrow>
             let jctx = job_context j trigger;
                 startedAt = w_now w 0;
                 runID = w_newRunID w 0;
                 run0 = \<lparr>ID = runID, JobName = jobName, Status = ''running'', ExitCode = 0,
                         StartedAt = startedAt, FinishedAt = None, DurationMs = 0,
                         StdoutTail = [], StderrTail = [], ErrorMsg = [], Trigger = trigger,
                         LLMAnalysis = [], LLMTokensUsed = 0, CreatedAt = 0\<rparr>;
                 (run1, st1, err1) = RecordRun (w_fmt w) (w_newRunID w 1) (w_now w 1) (st d) run0;
                 events1 = Publish (w_now w 2) (events d)
                             \<lparr>ev_ID = 0, ev_Type = ''run.started'', ev_JobName = jobName,
                              ev_RunID = runID, ev_Action = [], ev_Status = ''running'',
                              ev_Trigger = trigger, ev_At = 0\<rparr>;
                 fileWriters = open_writers w d;
                 runOpts = run_options w d j
             in (case Runner_Run (w_environ w) (Command j) jctx timeout (Some runOpts) (w_proc w) of
                  Inl e \<Rightarrow> Inl e
                | Inr (result0, runOpts1, cmd) \<Rightarrow>
                  let closed_writers =
                        (case (fileWriters, runOpts1) of
                           (Some _, Some os) \<Rightarrow>
                             (case (ExtraStdout os, ExtraStderr os) of
                                (Some wo, Some we) \<Rightarrow> Some (wo, we)
                              | _ \<Rightarrow> None)
                         | _ \<Rightarrow> None);
                      result =
                        (case closed_writers of
                           None \<Rightarrow> result0
                         | Some (wo, we) \<Rightarrow>
                             result0\<lparr>res_StdoutLogPath := fst (w_paths w jobName runID),
                                      res_StderrLogPath := snd (w_paths w jobName runID),
                                      res_StdoutLogBytes := WrittenBytes wo,
                                      res_StderrLogBytes := WrittenBytes we,
                                      res_StdoutTruncated := Truncated wo,
                                      res_StderrTruncated := Truncated we,
                                      res_LogStorageWarning :=
                                        (case w_closeErr w of Some m \<Rightarrow> m | None \<Rightarrow> [])\<rparr>);
                      finishedAt = w_now w 3;
                      run2 = finish_run run1 result finishedAt;
                      (run3, st2, err2) = RecordRun (w_fmt w) (w_newRunID w 2) (w_now w 4) st1 run2;
                      events2 = Publish (w_now w 5) events1
                                  \<lparr>ev_ID = 0, ev_Type = ''run.completed'', ev_JobName = jobName,
                                   ev_RunID = runID, ev_Action = [], ev_Status = Status run2,
                                   ev_Trigger = trigger, ev_At = 0\<rparr>
                  in Inr (d\<lparr>st := st2, events := events2,
                            logFiles := (case closed_writers of
                                           None \<Rightarrow> logFiles d
                                         | Some (wo, we) \<Rightarrow> logFiles d @ [(jobName, runID, wo, we)]),
                            processes := processes d @ [cmd]\<rparr>))))"

text \<open>The scheduler's callback and \<open>triggerRun\<close>.\<close>

definition on_fire :: "world \<Rightarrow> daemon \<Rightarrow> string \<Rightarrow> panic + daemon" where
  "on_fire w d jobName = executeJob w d jobName ''schedule''"

definition triggerRun :: "world \<Rightarrow> daemon \<Rightarrow> string \<Rightarrow> panic + daemon" where
  "triggerRun w d jobName = executeJob w d jobName ''manual''"

section \<open>internal/scheduler: the schedule queue\<close>

text \<open>
  An entry's \<open>schedule\<close> is a \<open>cron.Schedule\<close>, an interface with the one method
  \<open>Next\<close>: it is modelled by that function.  \<open>Before\<close> and \<open>After\<close> compare instants.
\<close>

record entry =
  jobName :: string
  schedule :: "time \<Rightarrow> time"
  nextRun :: time

type_synonym entryHeap = "entry list"

definition Less :: "entryHeap \<Rightarrow> nat \<Rightarrow> nat \<Rightarrow> bool" where
  "Less h i j = (nextRun (h ! i) < nextRun (h ! j))"

definition Swap :: "entryHeap \<Rightarrow> nat \<Rightarrow> nat \<Rightarrow> entryHeap" where
  "Swap h i j = h[i := h ! j, j := h ! i]"

text \<open>
  The functions of Go's \<open>container/heap\<close> that the scheduler calls, on an
  \<open>entryHeap\<close>.  \<open>up\<close>: the parent of \<open>j\<close> is \<open>(j - 1) / 2\<close>, which Go's truncating
  division makes 0 for \<open>j = 0\<close>, as the subtraction on \<open>nat\<close> does here.
\<close>

function heap_up :: "entryHeap \<Rightarrow> nat \<Rightarrow> entryHeap" where
  "heap_up h j =
     (let i = (j - 1) div 2 in
      if i = j \<or> \<not> Less h j i then h else heap_up (Swap h i j) i)"
  by pat_completeness auto
termination
  by (relation "measure snd") auto

text \<open>
  The loop of \<open>down\<close>: the final slice and the final index \<open>i\<close>; \<open>down\<close> itself
  returns whether \<open>i\<close> moved.  (The overflow test \<open>j1 < 0\<close> of the library cannot
  succeed on the index of a slice.)
\<close>

function down_loop :: "entryHeap \<Rightarrow> nat \<Rightarrow> nat \<Rightarrow> entryHeap \<times> nat" where
  "down_loop h i n =
     (let j1 = 2 * i + 1 in
      if j1 \<ge> n then (h, i)
      else
        let j = (if j1 + 1 < n \<and> Less h (j1 + 1) j1 then j1 + 1 else j1) in
        if \<not> Less h j i then (h, i) else down_loop (Swap h i j) j n)"
  by pat_completeness auto
termination
  by (relation "measure (\<lambda>(h, i, n). n - i)") auto

definition heap_down :: "entryHeap \<Rightarrow> nat \<Rightarrow> nat \<Rightarrow> entryHeap \<times> bool" where
  "heap_down h i0 n = (case down_loop h i0 n of (h', i) \<Rightarrow> (h', i > i0))"

definition heap_Push :: "entryHeap \<Rightarrow> entry \<Rightarrow> entryHeap" where
  "heap_Push h x = heap_up (h @ [x]) (length (h @ [x]) - 1)"

text \<open>
  \<open>heap.Pop\<close> and \<open>heap.Remove\<close> index the slice with \<open>h.Len() - 1\<close> and \<open>i\<close>; an
  index outside the slice panics.  The result is the new slice and the removed
  entry.
\<close>

definition heap_Pop :: "entryHeap \<Rightarrow> panic + (entryHeap \<times> entry)" where
  "heap_Pop h =
     (if h = [] then Inl IndexOutOfRange
      else
        let n = length h - 1;
            h1 = Swap h 0 n;
            h2 = fst (heap_down h1 0 n)
        in Inr (butlast h2, last h2))"

definition heap_Remove :: "entryHeap \<Rightarrow> nat \<Rightarrow> panic + (entryHeap \<times> entry)" where
  "heap_Remove h i =
     (if h = [] \<or> i \<ge> length h then Inl IndexOutOfRange
      else
        let n = length h - 1 in
        if n \<noteq> i then
          let h1 = Swap h i n;
              (h2, moved) = heap_down h1 i n;
              h3 = (if \<not> moved then heap_up h2 i else h2)
          in Inr (butlast h3, last h3)
        else Inr (butlast h, last h))"

text \<open>
  The scheduler.  \<open>timer\<close> is \<open>None\<close> for the nil pointer before \<open>Start\<close>; a timer is
  stopped or armed for an instant.  \<open>done_closed\<close> says whether the channel \<open>done\<close>
  is closed, \<open>reset_pending\<close> whether the one-slot channel \<open>reset\<close> holds a signal,
  and \<open>wg\<close> is the wait group's counter, the number of scheduler goroutines that
  have not returned.  The callback \<open>fire\<close> is not a field here: the step of the
  loop returns the name it calls \<open>fire\<close> with.
\<close>

datatype timer_state = Stopped | Armed time

record Scheduler =
  heap :: entryHeap
  timer :: "timer_state option"
  done_closed :: bool
  reset_pending :: bool
  wg :: nat

definition NewScheduler :: Scheduler where
  "NewScheduler = \<lparr>heap = [], timer = None, done_closed = False, reset_pending = False, wg = 0\<rparr>"

definition NextTime :: "(time \<Rightarrow> time) \<Rightarrow> time \<Rightarrow> time" where
  "NextTime sched after = sched after"

definition resetTimerLocked :: "Scheduler \<Rightarrow> time \<Rightarrow> Scheduler" where
  "resetTimerLocked s now =
     (case timer s of
        None \<Rightarrow> s
      | Some _ \<Rightarrow>
          if length (heap s) = 0 then s\<lparr>timer := Some Stopped\<rparr>
          else
            let d0 = nextRun (heap s ! 0) - now;
                d = (if d0 < 0 then 0 else d0)
            in s\<lparr>timer := Some (Armed (now + d)), reset_pending := True\<rparr>)"

text \<open>The index the range loop of \<open>removeLockedByName\<close> stops at, if any.\<close>

fun first_index :: "('a \<Rightarrow> bool) \<Rightarrow> 'a list \<Rightarrow> nat option" where
  "first_index P [] = None"
| "first_index P (x # xs) =
     (if P x then Some 0 else map_option Suc (first_index P xs))"

definition removeLockedByName :: "entryHeap \<Rightarrow> string \<Rightarrow> panic + entryHeap" where
  "removeLockedByName h name =
     (case first_index (\<lambda>e. jobName e = name) h of
        None \<Rightarrow> Inr h
      | Some i \<Rightarrow> (case heap_Remove h i of Inl p \<Rightarrow> Inl p | Inr (h', e) \<Rightarrow> Inr h'))"

text \<open>
  \<open>AddJob\<close>, \<open>RemoveJob\<close> and \<open>NextRunTime\<close>; \<open>now\<close> is the reading of the clock
  during the call.
\<close>

definition AddJob :: "Scheduler \<Rightarrow> string \<Rightarrow> (time \<Rightarrow> time) \<Rightarrow> time \<Rightarrow> panic + Scheduler" where
  "AddJob s name sched now =
     (case removeLockedByName (heap s) name of
        Inl p \<Rightarrow> Inl p
      | Inr h \<Rightarrow>
          let e = \<lparr>jobName = name, schedule = sched, nextRun = NextTime sched now\<rparr>
          in Inr (resetTimerLocked (s\<lparr>heap := heap_Push h e\<rparr>) now))"

definition RemoveJob :: "Scheduler \<Rightarrow> string \<Rightarrow> time \<Rightarrow> panic + Scheduler" where
  "RemoveJob s name now =
     (case removeLockedByName (heap s) name of
        Inl p \<Rightarrow> Inl p
      | Inr h \<Rightarrow> Inr (resetTimerLocked (s\<lparr>heap := h\<rparr>) now))"

definition NextRunTime :: "Scheduler \<Rightarrow> string \<Rightarrow> time \<times> bool" where
  "NextRunTime s name =
     (case find (\<lambda>e. jobName e = name) (heap s) of
        Some e \<Rightarrow> (nextRun e, True)
      | None \<Rightarrow> (0, False))"

text \<open>
  \<open>Start\<close> on the fields of the scheduler: it creates the stopped timer, arms it,
  and adds 1 to the wait group for the goroutine \<open>run\<close> that it launches.
\<close>

definition Start :: "Scheduler \<Rightarrow> time \<Rightarrow> Scheduler" where
  "Start s now = (resetTimerLocked (s\<lparr>timer := Some Stopped\<rparr>) now)\<lparr>wg := wg s + 1\<rparr>"

text \<open>
  One pass of the loop of \<open>run\<close> through the case \<open><-s.timer.C\<close>, at clock reading
  \<open>now\<close>: the new state and the job name passed to \<open>fire\<close>, if any.
\<close>

definition timer_case :: "Scheduler \<Rightarrow> time \<Rightarrow> panic + (Scheduler \<times> string option)" where
  "timer_case s now =
     (if length (heap s) = 0 then Inr (s, None)
      else
        let e = heap s ! 0 in
        if nextRun e > now then Inr (resetTimerLocked s now, None)
        else
          (case heap_Pop (heap s) of
             Inl p \<Rightarrow> Inl p
           | Inr (h1, popped) \<Rightarrow>
               let e1 = e\<lparr>nextRun := NextTime (schedule e) now\<rparr>
               in Inr (resetTimerLocked (s\<lparr>heap := heap_Push h1 e1\<rparr>) now, Some (jobName e))))"

text \<open>
  The loop of \<open>run\<close>.  Each pass takes one ready case of the \<open>select\<close>: the reset
  signal (the loop continues), the timer (above), or the closed channel \<open>done\<close>,
  where the goroutine stops the timer and returns, and the deferred \<open>wg.Done()\<close>
  runs.  Which ready case a pass takes is Go's choice; \<open>loop_pass\<close> does not ask
  whether the case it is given is ready, so it covers every pass the loop can make.
\<close>

datatype loop_event = ResetSignal | TimerFired time

definition loop_pass :: "Scheduler \<Rightarrow> loop_event \<Rightarrow> panic + (Scheduler \<times> string option)" where
  "loop_pass s ev =
     (case ev of
        ResetSignal \<Rightarrow> Inr (s\<lparr>reset_pending := False\<rparr>, None)
      | TimerFired now \<Rightarrow> timer_case s now)"

definition done_case :: "Scheduler \<Rightarrow> Scheduler" where
  "done_case s = s\<lparr>timer := map_option (\<lambda>_. Stopped) (timer s), wg := wg s - 1\<rparr>"

text \<open>\<open>close(s.done)\<close>, the first statement of \<open>Stop\<close>: closing a closed channel panics.\<close>

definition close_done :: "Scheduler \<Rightarrow> panic + Scheduler" where
  "close_done s = (if done_closed s then Inl CloseOfClosedChannel else Inr (s\<lparr>done_closed := True\<rparr>))"

text \<open>
  The goroutines that \<open>Start\<close> launches with \<open>go s.run()\<close>.  Each one is at the
  \<open>select\<close>, or inside the call \<open>s.fire(jobName)\<close>, which \<open>run\<close> makes after it has
  released the lock and which lasts as long as the callback does, or it has
  returned.  The scheduler and its goroutines together are a \<open>runtime\<close>.
\<close>

datatype goroutine = AtSelect | InFire string | Returned

record runtime =
  scheduler :: Scheduler
  goroutines :: "goroutine list"

definition NewRuntime :: runtime where
  "NewRuntime = \<lparr>scheduler = NewScheduler, goroutines = []\<rparr>"

text \<open>\<open>Start\<close> with its last statement, \<open>go s.run()\<close>.\<close>

definition Start_go :: "runtime \<Rightarrow> time \<Rightarrow> runtime" where
  "Start_go c now = \<lparr>scheduler = Start (scheduler c) now, goroutines = goroutines c @ [AtSelect]\<rparr>"

text \<open>
  One step of one goroutine of \<open>run\<close>: goroutine \<open>i\<close>, at the \<open>select\<close>, takes the
  reset case, which is ready only when the channel holds a signal, or the timer
  case, and enters the callback when the pass fires a job; or it takes the case
  \<open>done\<close>, which is ready only once the channel is closed; or the callback it is in
  returns, and it is back at the \<open>select\<close>.  A step named for a goroutine that is
  not at that point, or for a case that is not ready, changes nothing.  When the
  timer's channel holds a value is not modelled: the timer case can be taken in
  every state, at any reading of the clock.
\<close>

datatype run_action = TakeCase nat loop_event | TakeDone nat | FireReturns nat

definition run_step :: "runtime \<Rightarrow> run_action \<Rightarrow> panic + runtime" where
  "run_step c a =
     (case a of
        TakeCase i ev \<Rightarrow>
          if i < length (goroutines c) \<and> goroutines c ! i = AtSelect \<and>
             (case ev of ResetSignal \<Rightarrow> reset_pending (scheduler c) | TimerFired now \<Rightarrow> True)
          then
            (case loop_pass (scheduler c) ev of
               Inl p \<Rightarrow> Inl p
             | Inr (s', fired) \<Rightarrow>
                 Inr \<lparr>scheduler = s',
                      goroutines = (goroutines c)
                        [i := (case fired of Some name \<Rightarrow> InFire name | None \<Rightarrow> AtSelect)]\<rparr>)
          else Inr c
      | TakeDone i \<Rightarrow>
          if i < length (goroutines c) \<and> goroutines c ! i = AtSelect \<and> done_closed (scheduler c)
          then Inr \<lparr>scheduler = done_case (scheduler c), goroutines = (goroutines c)[i := Returned]\<rparr>
          else Inr c
      | FireReturns i \<Rightarrow>
          if i < length (goroutines c) then
            (case goroutines c ! i of
               InFire name \<Rightarrow> Inr (c\<lparr>goroutines := (goroutines c)[i := AtSelect]\<rparr>)
             | _ \<Rightarrow> Inr c)
          else Inr c)"

text \<open>
  \<open>s.wg.Wait()\<close> blocks until the wait group's counter is 0.  \<open>acts\<close> are the steps
  the goroutines take while the caller waits: the call returns as soon as the
  counter is 0, and \<open>None\<close> says that it has not returned when these steps are over.
\<close>

fun wg_Wait :: "runtime \<Rightarrow> run_action list \<Rightarrow> panic + runtime option" where
  "wg_Wait c [] = (if wg (scheduler c) = 0 then Inr (Some c) else Inr None)"
| "wg_Wait c (a # acts) =
     (if wg (scheduler c) = 0 then Inr (Some c)
      else case run_step c a of Inl p \<Rightarrow> Inl p | Inr c1 \<Rightarrow> wg_Wait c1 acts)"

text \<open>\<open>Stop\<close> is \<open>close(s.done)\<close> and then \<open>s.wg.Wait()\<close>.\<close>

definition Stop :: "runtime \<Rightarrow> run_action list \<Rightarrow> panic + runtime option" where
  "Stop c acts =
     (case close_done (scheduler c) of
        Inl p \<Rightarrow> Inl p
      | Inr s1 \<Rightarrow> wg_Wait (c\<lparr>scheduler := s1\<rparr>) acts)"

declare heap_up.simps [simp del] down_loop.simps [simp del]

text \<open>
  The notions the queue's invariant is stated with: the parent of an index and the
  child \<open>down\<close> compares with, the min-heap property on the first \<open>n\<close> entries
  (\<open>Less\<close> orders by \<open>nextRun\<close> alone), the same property with the entry at \<open>i\<close>
  left out of every comparison, and the invariant of the scheduler's queue.
\<close>

definition parent :: "nat \<Rightarrow> nat" where
  "parent j = (j - 1) div 2"

definition min_child :: "entryHeap \<Rightarrow> nat \<Rightarrow> nat \<Rightarrow> nat" where
  "min_child h i n = (if 2 * i + 2 < n \<and> Less h (2 * i + 2) (2 * i + 1) then 2 * i + 2 else 2 * i + 1)"

abbreviation key :: "entryHeap \<Rightarrow> nat \<Rightarrow> time" where
  "key h k \<equiv> nextRun (h ! k)"

definition heap_upto :: "nat \<Rightarrow> entryHeap \<Rightarrow> bool" where
  "heap_upto n h = (\<forall>k. 0 < k \<and> k < n \<longrightarrow> key h (parent k) \<le> key h k)"

definition is_heap :: "entryHeap \<Rightarrow> bool" where
  "is_heap h = heap_upto (length h) h"

definition heap_except :: "nat \<Rightarrow> entryHeap \<Rightarrow> nat \<Rightarrow> bool" where
  "heap_except n h i =
     (\<forall>k. 0 < k \<and> k < n \<longrightarrow>
        (parent k \<noteq> i \<and> k \<noteq> i \<longrightarrow> key h (parent k) \<le> key h k) \<and>
        (parent k = i \<and> 0 < i \<longrightarrow> key h (parent i) \<le> key h k))"

definition queue_inv :: "Scheduler \<Rightarrow> bool" where
  "queue_inv s = (is_heap (heap s) \<and> distinct (map jobName (heap s)))"

text \<open>
  The scheduler states that the exported operations and the loop can produce; a
  goroutine takes the case \<open>done\<close> only when the channel is closed, and the wait
  group counts it until then.
\<close>

inductive reachable :: "Scheduler \<Rightarrow> bool" where
  reach_new: "reachable NewScheduler"
| reach_add: "reachable s \<Longrightarrow> AddJob s name sched now = Inr s' \<Longrightarrow> reachable s'"
| reach_remove: "reachable s \<Longrightarrow> RemoveJob s name now = Inr s' \<Longrightarrow> reachable s'"
| reach_start: "reachable s \<Longrightarrow> reachable (Start s now)"
| reach_close: "reachable s \<Longrightarrow> close_done s = Inr s' \<Longrightarrow> reachable s'"
| reach_done: "reachable s \<Longrightarrow> done_closed s \<Longrightarrow> 0 < wg s \<Longrightarrow> reachable (done_case s)"
| reach_pass: "reachable s \<Longrightarrow> loop_pass s ev = Inr (s', fired) \<Longrightarrow> reachable s'"

text \<open>
  The same for the scheduler together with its goroutines, and the number of
  goroutines that have not returned.
\<close>

inductive reachable_runtime :: "runtime \<Rightarrow> bool" where
  rt_new: "reachable_runtime NewRuntime"
| rt_add: "reachable_runtime c \<Longrightarrow> AddJob (scheduler c) name sched now = Inr s' \<Longrightarrow>
           reachable_runtime (c\<lparr>scheduler := s'\<rparr>)"
| rt_remove: "reachable_runtime c \<Longrightarrow> RemoveJob (scheduler c) name now = Inr s' \<Longrightarrow>
              reachable_runtime (c\<lparr>scheduler := s'\<rparr>)"
| rt_start: "reachable_runtime c \<Longrightarrow> reachable_runtime (Start_go c now)"
| rt_close: "reachable_runtime c \<Longrightarrow> close_done (scheduler c) = Inr s' \<Longrightarrow>
             reachable_runtime (c\<lparr>scheduler := s'\<rparr>)"
| rt_step: "reachable_runtime c \<Longrightarrow> run_step c a = Inr c' \<Longrightarrow> reachable_runtime c'"

definition live :: "goroutine list \<Rightarrow> nat" where
  "live gs = length (filter (\<lambda>g. g \<noteq> Returned) gs)"

section \<open>Sample inputs for the examples\<close>

text \<open>
  \<open>sample_fmt\<close> and \<open>sample_prs\<close> are \<open>Time.Format\<close> and \<open>time.Parse\<close> with the
  layout \<open>time.RFC3339Nano\<close> on the instants 1 s to 4 s after the zero time, and
  \<open>sample_pd\<close> is \<open>time.ParseDuration\<close> on the three strings the examples use (the
  third is one it rejects).
\<close>

definition sample_fmt :: "time \<Rightarrow> string" where
  "sample_fmt t =
     (if t = 1000000000 then ''0001-01-01T00:00:01Z''
      else if t = 2000000000 then ''0001-01-01T00:00:02Z''
      else if t = 3000000000 then ''0001-01-01T00:00:03Z''
      else ''0001-01-01T00:00:04Z'')"

definition sample_prs :: "string \<Rightarrow> time option" where
  "sample_prs s =
     (if s = ''0001-01-01T00:00:01Z'' then Some 1000000000
      else if s = ''0001-01-01T00:00:02Z'' then Some 2000000000
      else if s = ''0001-01-01T00:00:03Z'' then Some 3000000000
      else if s = ''0001-01-01T00:00:04Z'' then Some 4000000000
      else None)"

definition sample_pd :: "string \<Rightarrow> int option" where
  "sample_pd s =
     (if s = ''100ms'' then Some 100000000
      else if s = ''1s'' then Some 1000000000
      else None)"

definition sample_job :: Job where
  "sample_job =
     \<lparr>Name = ''slow'', Schedule = ''@hourly'', Command = ''echo hello!; exit 3'', WorkingDir = [],
      Executor = ''shell'', Timeout = ''100ms'', Env = [(''FOO'', ''1'')], Enabled = None,
      OnSuccess = [], OnFailure = [], FilePath = ''jobs/slow.yaml''\<rparr>"

definition sample_daemon :: daemon where
  "sample_daemon =
     \<lparr>jobMap = [(''slow'', sample_job)], st = \<lparr>runs = [], closed = False\<rparr>,
      events = snd (Subscribe NewBroker), runLogsEnabled = True, maxBytesPerStream = 4,
      logFiles = [], processes = []\<rparr>"

definition sample_world :: world where
  "sample_world =
     \<lparr>w_environ = [''PATH=/bin''], w_parseDuration = sample_pd, w_fmt = sample_fmt,
      w_now = (\<lambda>k. if k = 0 then 1000000000 else if k \<le> 2 then 2000000000 else 3000000000),
      w_newRunID = (\<lambda>k. if k = 0 then ''01J0000000000000000000000A''
                         else ''01J0000000000000000000000B''),
      w_paths = (\<lambda>j r. (''logs/'' @ j @ ''/'' @ r @ ''.stdout.log'',
                         ''logs/'' @ j @ ''/'' @ r @ ''.stderr.log'')),
      w_openOk = True,
      w_proc = \<lparr>po_stdout = [(''hello!'', FileOk)], po_stderr = [],
                po_err = Some (ExitError 3 ''exit status 3''),
                po_deadline_passed = False, po_duration_ms = 12\<rparr>,
      w_closeErr = None\<rparr>"

definition sample_daemon_bad_timeout :: daemon where
  "sample_daemon_bad_timeout = sample_daemon\<lparr>jobMap := [(''slow'', sample_job\<lparr>Timeout := ''soon''\<rparr>)]\<rparr>"

definition sample_running :: Run where
  "sample_running =
     \<lparr>ID = ''01J0000000000000000000000A'', JobName = ''slow'', Status = ''running'', ExitCode = 0,
      StartedAt = 1000000000, FinishedAt = None, DurationMs = 0, StdoutTail = [],
      StderrTail = [], ErrorMsg = [], Trigger = ''manual'', LLMAnalysis = [],
      LLMTokensUsed = 0, CreatedAt = 0\<rparr>"

definition sample_done :: Run where
  "sample_done =
     \<lparr>ID = ''01J0000000000000000000000A'', JobName = ''renamed'', Status = ''failure'', ExitCode = 3,
      StartedAt = 4000000000, FinishedAt = Some 3000000000, DurationMs = 12,
      StdoutTail = ''hello!'', StderrTail = [], ErrorMsg = ''exit status 3'',
      Trigger = ''schedule'', LLMAnalysis = ''n/a'', LLMTokensUsed = 7, CreatedAt = 4000000000\<rparr>"

text \<open>
  \<open>Time.Format\<close> and \<open>time.Parse\<close> with the layout \<open>time.RFC3339Nano\<close> on one more
  instant, 1.5 s after the zero time: the layout prints the fraction of a second
  without its trailing zeros, and prints none when the fraction is 0.  The store
  \<open>sample_store_half\<close> holds two runs of the job \<open>slow\<close>: \<open>sample_first\<close>, started at
  1 s, and \<open>sample_second\<close>, started at 1.5 s.
\<close>

definition sample_fmt_half :: "time \<Rightarrow> string" where
  "sample_fmt_half t = (if t = 1500000000 then ''0001-01-01T00:00:01.5Z'' else sample_fmt t)"

definition sample_prs_half :: "string \<Rightarrow> time option" where
  "sample_prs_half s = (if s = ''0001-01-01T00:00:01.5Z'' then Some 1500000000 else sample_prs s)"

definition sample_first :: Run where
  "sample_first = sample_running\<lparr>CreatedAt := 1000000000\<rparr>"

definition sample_second :: Run where
  "sample_second =
     sample_running\<lparr>ID := ''01J0000000000000000000000B'', StartedAt := 1500000000,
                    CreatedAt := 2000000000\<rparr>"

definition sample_store_half :: SQLiteStore where
  "sample_store_half =
     \<lparr>runs = [insert_values sample_fmt_half sample_first,
              insert_values sample_fmt_half sample_second],
      closed = False\<rparr>"

text \<open>The schedule \<open>* * * * *\<close>: the next full minute strictly after an instant.\<close>

definition sample_every_minute :: "time \<Rightarrow> time" where
  "sample_every_minute t = (t div 60000000000 + 1) * 60000000000"

text \<open>
  A started scheduler to which the job \<open>b\<close> and then the job \<open>a\<close> were added during
  the first minute, both with the schedule \<open>* * * * *\<close>; the same scheduler after the
  loop has fired once, and twice, at the full minute.
\<close>

definition sample_entry :: "string \<Rightarrow> time \<Rightarrow> entry" where
  "sample_entry name t = \<lparr>jobName = name, schedule = sample_every_minute, nextRun = t\<rparr>"

definition sample_queue_b :: Scheduler where
  "sample_queue_b =
     \<lparr>heap = [sample_entry ''b'' 60000000000],
      timer = Some (Armed 60000000000), done_closed = False, reset_pending = True, wg = 1\<rparr>"

definition sample_queue_ba :: Scheduler where
  "sample_queue_ba =
     \<lparr>heap = [sample_entry ''b'' 60000000000, sample_entry ''a'' 60000000000],
      timer = Some (Armed 60000000000), done_closed = False, reset_pending = True, wg = 1\<rparr>"

definition sample_queue_fired_once :: Scheduler where
  "sample_queue_fired_once =
     \<lparr>heap = [sample_entry ''a'' 60000000000, sample_entry ''b'' 120000000000],
      timer = Some (Armed 60000000000), done_closed = False, reset_pending = True, wg = 1\<rparr>"

definition sample_queue_fired_twice :: Scheduler where
  "sample_queue_fired_twice =
     \<lparr>heap = [sample_entry ''b'' 120000000000, sample_entry ''a'' 120000000000],
      timer = Some (Armed 120000000000), done_closed = False, reset_pending = True, wg = 1\<rparr>"

text \<open>
  The scheduler \<open>sample_queue_ba\<close> with its goroutine at the \<open>select\<close>, and the
  scheduler after the first firing with the goroutine inside the callback for \<open>b\<close>.
\<close>

definition sample_runtime :: runtime where
  "sample_runtime = \<lparr>scheduler = sample_queue_ba, goroutines = [AtSelect]\<rparr>"

definition sample_runtime_firing :: runtime where
  "sample_runtime_firing = \<lparr>scheduler = sample_queue_fired_once, goroutines = [InFire ''b'']\<rparr>"

definition sample_store :: SQLiteStore where
  "sample_store =
     \<lparr>runs = [insert_values sample_fmt (sample_running\<lparr>CreatedAt := 1000000000\<rparr>),
              insert_values sample_fmt (sample_done\<lparr>ID := ''01J0000000000000000000000B''\<rparr>)],
      closed = False\<rparr>"

section \<open>Ring buffer and capped writer at an empty write\<close>

lemma replicate4: "replicate 4 x = [x, x, x, x]"
  by (simp add: numeral_Bit0 numeral_One [symmetric] replicate_add)

text \<open>
  C5 (ring buffer keeps the most recent \<open>min(L, N)\<close> bytes of every write sequence).
  With capacity 4, the writes \<open>"ab"\<close> and then \<open>""\<close> both report full success, but
  the empty write leaves \<open>pos\<close> where it was, \<open>pos \<le> oldPos\<close> holds, and the buffer
  is marked full: \<open>String\<close> then returns the four bytes \<open>00 00 'a' 'b'\<close>, two of which
  were never written, instead of the stream \<open>"ab"\<close>.
\<close>

theorem RingBuffer_empty_write_marks_full:
  "NewRingBuffer 4 = Inr \<lparr>buf = [CHR 0x00, CHR 0x00, CHR 0x00, CHR 0x00], size = 4, pos = 0, full = False\<rparr> \<and>
   RingBuffer_writes \<lparr>buf = [CHR 0x00, CHR 0x00, CHR 0x00, CHR 0x00], size = 4, pos = 0, full = False\<rparr> [''ab'', []]
     = (\<lparr>buf = [CHR ''a'', CHR ''b'', CHR 0x00, CHR 0x00], size = 4, pos = 2, full = True\<rparr>, [2, 0]) \<and>
   RingBuffer_String \<lparr>buf = [CHR ''a'', CHR ''b'', CHR 0x00, CHR 0x00], size = 4, pos = 2, full = True\<rparr>
     = [CHR 0x00, CHR 0x00, CHR ''a'', CHR ''b''] \<and>
   drop (length (concat [''ab'', []]) - 4) (concat [''ab'', []]) = ''ab''"
  by (simp add: NewRingBuffer_def RingBuffer_Write_def RingBuffer_String_def go_copy_def
      copy_at_def replicate4)

text \<open>
  C6 (capped writer: \<open>min(L, C)\<close> bytes persisted, truncated iff \<open>L > C\<close>).  With cap
  2 and a file that accepts every write, the writes \<open>"ab"\<close> and then \<open>""\<close> persist the
  two bytes and report success, but the empty write finds \<open>remaining = 0\<close> and sets
  the truncated flag although the total input length 2 does not exceed the cap.
\<close>

theorem CappedFileWriter_empty_write_marks_truncated:
  "CappedFileWriter_writes (NewCappedFileWriter [] 2) [(''ab'', FileOk), ([], FileOk)]
     = (\<lparr>file_content = ''ab'', maxBytes = 2, written = 2, truncated = True\<rparr>, [2, 0]) \<and>
   Truncated \<lparr>file_content = ''ab'', maxBytes = 2, written = 2, truncated = True\<rparr> \<and>
   \<not> (int (length (concat [''ab'', []])) > 2)"
  by (simp add: NewCappedFileWriter_def CappedFileWriter_Write_def File_Write_def Truncated_def)

section \<open>Ring buffer and capped writer under writes of at least one byte\<close>

text \<open>
  When no write of the sequence is empty, the ring buffer ends with the last
  \<open>min(L, N)\<close> bytes of the stream and every write returns the length of its input.
\<close>

lemma RingBuffer_String_content:
  "length (buf rb) = size rb \<Longrightarrow> pos rb \<le> size rb \<Longrightarrow> RingBuffer_String rb = rb_content rb"
  by (auto simp: RingBuffer_String_def rb_content_def go_copy_def copy_at_def Let_def min_def)

lemma rb_inv_New: "NewRingBuffer n = Inr rb \<Longrightarrow> rb_inv rb [] \<and> size rb = nat n"
  by (auto simp: NewRingBuffer_def rb_inv_def rb_content_def split: if_splits)

lemma rb_write_big:
  assumes "rb_inv rb B" and "length p \<ge> size rb"
  shows "rb_inv (fst (RingBuffer_Write rb p)) (B @ p)"
  using assms
  by (auto simp: RingBuffer_Write_def rb_inv_def rb_content_def go_copy_def Let_def)

lemma write_small_eq:
  assumes "length p < size rb" and "length (buf rb) = size rb" and "pos rb < size rb"
  shows "RingBuffer_Write rb p =
    (if pos rb + length p \<le> size rb
     then (rb\<lparr>buf := take (pos rb) (buf rb) @ p @ drop (pos rb + length p) (buf rb),
              pos := (pos rb + length p) mod size rb,
              full := (if \<not> full rb \<and> (pos rb + length p) mod size rb \<le> pos rb then True else full rb)\<rparr>, length p)
     else (rb\<lparr>buf := drop (size rb - pos rb) p @
                       drop (length p - (size rb - pos rb)) (take (pos rb) (buf rb) @ take (size rb - pos rb) p),
              pos := (pos rb + length p) mod size rb,
              full := (if \<not> full rb \<and> (pos rb + length p) mod size rb \<le> pos rb then True else full rb)\<rparr>, length p))"
  using assms
  by (auto simp: RingBuffer_Write_def go_copy_def copy_at_def Let_def min_def add.commute)

lemma rb_write_small:
  assumes inv: "rb_inv rb B" and small: "length p < size rb" and ne: "p \<noteq> []"
  shows "rb_inv (fst (RingBuffer_Write rb p)) (B @ p)"
proof -
  let ?n = "length p" and ?N = "size rb" and ?k = "pos rb" and ?b = "buf rb"
  have lb: "length ?b = ?N" and kN: "?k < ?N" using inv small by (auto simp: rb_inv_def)
  have n0: "0 < ?n" using ne by simp
  note w = write_small_eq [OF small lb kN]
  show ?thesis
  proof (cases "?k + ?n \<le> ?N")
    case fits: True
    show ?thesis
    proof (cases "?k + ?n = ?N")
      case True
      then have m: "(?k + ?n) mod ?N = 0" by simp
      show ?thesis
      proof (cases "full rb")
        case False
        then have "take ?k ?b = B" "?k = length B" using inv by (auto simp: rb_inv_def rb_content_def)
        then show ?thesis using fits True m False lb small
          by (simp add: w rb_inv_def rb_content_def)
      next
        case f: True
        then have c: "drop ?k ?b @ take ?k ?b = drop (length B - ?N) B" and L: "?N \<le> length B"
          using inv by (auto simp: rb_inv_def rb_content_def)
        have "drop (length B + ?n - ?N) (B @ p) = drop ?n (drop (length B - ?N) B) @ p"
          using L small by (simp add: add.commute)
        also have "\<dots> = drop ?n (drop ?k ?b @ take ?k ?b) @ p" by (simp only: c)
        also have "\<dots> = take ?k ?b @ p" using True lb by simp
        finally show ?thesis using fits True m f lb L small
          by (simp add: w rb_inv_def rb_content_def)
      qed
    next
      case False
      then have lt: "?k + ?n < ?N" using fits by simp
      then have m: "(?k + ?n) mod ?N = ?k + ?n" by simp
      show ?thesis
      proof (cases "full rb")
        case nf: False
        then have "take ?k ?b = B" "?k = length B" using inv by (auto simp: rb_inv_def rb_content_def)
        then show ?thesis using fits lt m nf lb n0 small
          by (simp add: w rb_inv_def rb_content_def)
      next
        case f: True
        then have c: "drop ?k ?b @ take ?k ?b = drop (length B - ?N) B" and L: "?N \<le> length B"
          using inv by (auto simp: rb_inv_def rb_content_def)
        have "drop (length B + ?n - ?N) (B @ p) = drop ?n (drop (length B - ?N) B) @ p"
          using L small by (simp add: add.commute)
        also have "\<dots> = drop ?n (drop ?k ?b @ take ?k ?b) @ p" by (simp only: c)
        also have "\<dots> = drop (?k + ?n) ?b @ take ?k ?b @ p" using lt lb by (simp add: add.commute)
        finally show ?thesis using fits lt m f lb L small
          by (simp add: w rb_inv_def rb_content_def)
      qed
    qed
  next
    case wraps: False
    let ?first = "?N - ?k"
    have fn: "?first < ?n" using wraps kN by arith
    have m: "(?k + ?n) mod ?N = ?n - ?first"
    proof -
      have "?k + ?n = ?N + (?n - ?first)" using wraps kN by arith
      moreover have "?n - ?first < ?N" using small kN by arith
      ultimately show ?thesis by (metis mod_add_self1 mod_less)
    qed
    have mk: "?n - ?first < ?k" using small kN wraps by arith
    show ?thesis
    proof (cases "full rb")
      case nf: False
      then have B: "take ?k ?b = B" "?k = length B" using inv by (auto simp: rb_inv_def rb_content_def)
      have e: "length B + ?n - ?N = ?n - ?first" using B kN wraps by arith
      have "drop (length B + ?n - ?N) (B @ p) = drop (?n - ?first) (B @ p)"
        by (simp only: e)
      also have "\<dots> = drop (?n - ?first) B @ p" using mk B by simp
      finally have g: "drop (length B + ?n - ?N) (B @ p) = drop (?n - ?first) B @ p" .
      have "drop (?n - ?first) (take ?k ?b @ take ?first p) @ drop ?first p
              = drop (?n - ?first) B @ p"
        using mk B by simp
      then show ?thesis using wraps m mk nf lb kN fn small g B
        by (simp add: w rb_inv_def rb_content_def)
    next
      case f: True
      then have c: "drop ?k ?b @ take ?k ?b = drop (length B - ?N) B" and L: "?N \<le> length B"
        using inv by (auto simp: rb_inv_def rb_content_def)
      have "drop (length B + ?n - ?N) (B @ p) = drop ?n (drop (length B - ?N) B) @ p"
        using L small by (simp add: add.commute)
      also have "\<dots> = drop ?n (drop ?k ?b @ take ?k ?b) @ p" by (simp only: c)
      also have "\<dots> = drop (?n - ?first) (take ?k ?b) @ p" using fn lb by simp
      finally have g: "drop (length B + ?n - ?N) (B @ p) = drop (?n - ?first) (take ?k ?b) @ p" .
      have "drop (?n - ?first) (take ?k ?b @ take ?first p) @ drop ?first p
              = drop (?n - ?first) (take ?k ?b) @ p"
        using mk lb kN by simp
      then show ?thesis using wraps m mk f lb kN fn small g L
        by (simp add: w rb_inv_def rb_content_def)
    qed
  qed
qed

lemma snd_RingBuffer_Write: "snd (RingBuffer_Write rb p) = length p"
  by (simp add: RingBuffer_Write_def Let_def)

lemma size_RingBuffer_Write: "size (fst (RingBuffer_Write rb p)) = size rb"
  by (simp add: RingBuffer_Write_def Let_def)

lemma size_RingBuffer_writes: "size (fst (RingBuffer_writes rb ps)) = size rb"
proof (induction ps arbitrary: rb)
  case Nil
  show ?case by simp
next
  case (Cons p ps)
  show ?case using Cons.IH [of "fst (RingBuffer_Write rb p)"] size_RingBuffer_Write [of rb p]
    by (simp add: split_def Let_def)
qed

lemma rb_write_inv:
  assumes "rb_inv rb B" and "p \<noteq> []"
  shows "rb_inv (fst (RingBuffer_Write rb p)) (B @ p)"
proof (cases "length p < size rb")
  case True
  then show ?thesis using assms by (intro rb_write_small)
next
  case False
  then show ?thesis using assms(1) by (intro rb_write_big) simp_all
qed

lemma rb_writes_inv:
  assumes "rb_inv rb B" and "[] \<notin> set ps"
  shows "rb_inv (fst (RingBuffer_writes rb ps)) (B @ concat ps) \<and>
         snd (RingBuffer_writes rb ps) = map length ps"
  using assms
proof (induction ps arbitrary: rb B)
  case Nil
  then show ?case by simp
next
  case (Cons p ps)
  obtain rb1 n where w: "RingBuffer_Write rb p = (rb1, n)" by (cases "RingBuffer_Write rb p")
  have n: "n = length p" using w snd_RingBuffer_Write [of rb p] by simp
  have pne: "p \<noteq> []" using Cons.prems(2) by auto
  have psne: "[] \<notin> set ps" using Cons.prems(2) by auto
  have i1: "rb_inv rb1 (B @ p)" using rb_write_inv [OF Cons.prems(1) pne] w by simp
  have "rb_inv (fst (RingBuffer_writes rb1 ps)) ((B @ p) @ concat ps) \<and>
        snd (RingBuffer_writes rb1 ps) = map length ps"
    by (rule Cons.IH [OF i1 psne])
  then show ?case using w n by (simp add: split_def Let_def)
qed

lemma rb_inv_String:
  assumes "rb_inv rb B"
  shows "RingBuffer_String rb = drop (length B - size rb) B"
proof -
  have "length (buf rb) = size rb" "pos rb \<le> size rb" "rb_content rb = drop (length B - size rb) B"
    using assms by (auto simp: rb_inv_def)
  then show ?thesis by (simp add: RingBuffer_String_content)
qed

lemma RingBuffer_nonempty_writes:
  assumes new: "NewRingBuffer n = Inr rb" and ne: "[] \<notin> set ps"
  shows "snd (RingBuffer_writes rb ps) = map length ps \<and>
         RingBuffer_String (fst (RingBuffer_writes rb ps))
           = drop (length (concat ps) - nat n) (concat ps)"
proof -
  have i: "rb_inv rb []" and s: "size rb = nat n" using rb_inv_New [OF new] by simp_all
  have w: "rb_inv (fst (RingBuffer_writes rb ps)) (concat ps)"
    and c: "snd (RingBuffer_writes rb ps) = map length ps"
    using rb_writes_inv [OF i ne] by simp_all
  have sz: "size (fst (RingBuffer_writes rb ps)) = size rb"
    by (rule size_RingBuffer_writes)
  show ?thesis using rb_inv_String [OF w] c sz s by simp
qed

text \<open>
  When the cap is positive, the file accepts every write and no write of the
  sequence is empty, the capped writer persists the first \<open>min(L, C)\<close> bytes, counts
  them, and is marked truncated exactly when \<open>L > C\<close>.
\<close>

lemma cw_write_inv:
  assumes inv: "cw_inv w f C B" and C: "0 < C" and ne: "p \<noteq> []"
  shows "cw_inv (fst (CappedFileWriter_Write w FileOk p)) f C (B @ p) \<and>
         snd (CappedFileWriter_Write w FileOk p) = length p"
proof -
  let ?L = "int (length B)" and ?n = "int (length p)"
  have m: "maxBytes w = C" and fc: "file_content w = f @ take (nat C) B"
    and wr: "written w = min ?L C" and tr: "truncated w \<longleftrightarrow> ?L > C"
    using inv by (simp_all add: cw_inv_def)
  have n0: "0 < ?n" using ne by simp
  show ?thesis
  proof (cases "C \<le> ?L")
    case True
    then have "take (nat C) (B @ p) = take (nat C) B" by simp
    moreover have "C < ?L + ?n" using True n0 by arith
    ultimately show ?thesis using True m fc wr tr C
      by (simp add: CappedFileWriter_Write_def cw_inv_def)
  next
    case less: False
    then have wl: "written w = ?L" and tB: "take (nat C) B = B" and ntr: "\<not> truncated w"
      using wr tr by simp_all
    show ?thesis
    proof (cases "?n > C - ?L")
      case True
      have e: "nat C - length B = nat (C - ?L)" by arith
      have "take (nat C) (B @ p) = B @ take (nat (C - ?L)) p" using less by (simp add: e)
      moreover have "int (length (take (nat (C - ?L)) p)) = C - ?L" using True less by simp
      ultimately show ?thesis using True less m fc wl tB C
        by (simp add: CappedFileWriter_Write_def cw_inv_def File_Write_def Let_def)
    next
      case False
      then have "take (nat C) (B @ p) = B @ p" by simp
      then show ?thesis using False less m fc wl tB ntr C
        by (simp add: CappedFileWriter_Write_def cw_inv_def File_Write_def Let_def)
    qed
  qed
qed

lemma cw_writes_inv:
  assumes "cw_inv w f C B" and "0 < C" and "[] \<notin> set ps"
  shows "cw_inv (fst (CappedFileWriter_writes w (map (\<lambda>p. (p, FileOk)) ps))) f C (B @ concat ps) \<and>
         snd (CappedFileWriter_writes w (map (\<lambda>p. (p, FileOk)) ps)) = map length ps"
  using assms
proof (induction ps arbitrary: w B)
  case Nil
  then show ?case by simp
next
  case (Cons p ps)
  have pne: "p \<noteq> []" using Cons.prems(3) by auto
  note st = cw_write_inv [OF Cons.prems(1) Cons.prems(2) pne]
  have psne: "[] \<notin> set ps" using Cons.prems(3) by auto
  have i1: "cw_inv (fst (CappedFileWriter_Write w FileOk p)) f C (B @ p)" using st by simp
  have "cw_inv (fst (CappedFileWriter_writes (fst (CappedFileWriter_Write w FileOk p)) (map (\<lambda>p. (p, FileOk)) ps)))
          f C ((B @ p) @ concat ps) \<and>
        snd (CappedFileWriter_writes (fst (CappedFileWriter_Write w FileOk p)) (map (\<lambda>p. (p, FileOk)) ps))
          = map length ps"
    by (rule Cons.IH [OF i1 Cons.prems(2) psne])
  then show ?case using st by (simp add: split_def Let_def)
qed

lemma CappedFileWriter_nonempty_writes:
  assumes C: "0 < C" and ne: "[] \<notin> set ps"
  shows "snd (CappedFileWriter_writes (NewCappedFileWriter f C) (map (\<lambda>p. (p, FileOk)) ps)) = map length ps \<and>
         file_content (fst (CappedFileWriter_writes (NewCappedFileWriter f C) (map (\<lambda>p. (p, FileOk)) ps)))
           = f @ take (nat C) (concat ps) \<and>
         WrittenBytes (fst (CappedFileWriter_writes (NewCappedFileWriter f C) (map (\<lambda>p. (p, FileOk)) ps)))
           = min (int (length (concat ps))) C \<and>
         (Truncated (fst (CappedFileWriter_writes (NewCappedFileWriter f C) (map (\<lambda>p. (p, FileOk)) ps)))
           \<longleftrightarrow> int (length (concat ps)) > C)"
proof -
  have "cw_inv (NewCappedFileWriter f C) f C []" using C
    by (simp add: cw_inv_def NewCappedFileWriter_def)
  from cw_writes_inv [OF this C ne] show ?thesis
    by (simp add: cw_inv_def WrittenBytes_def Truncated_def)
qed

section \<open>The subprocess environment\<close>

text \<open>
  C1 (every subprocess environment contains \<open>CRONBAT_JOB_NAME\<close> and
  \<open>CRONBAT_TRIGGER\<close>).  For the job \<open>backup\<close> triggered manually, with process
  environment \<open>PATH=/bin\<close> and job environment \<open>FOO=1\<close>, \<open>BuildEnv\<close> returns exactly
  four entries; the two reserved ones are named \<open>PICOCRON_JOB_NAME\<close> and
  \<open>PICOCRON_TRIGGER\<close>, and neither \<open>CRONBAT_JOB_NAME=backup\<close> nor
  \<open>CRONBAT_TRIGGER=manual\<close> is among them.
\<close>

theorem BuildEnv_reserved_names:
  "BuildEnv [''PATH=/bin''] []
      \<lparr>ctx_JobName = ''backup'', ctx_Schedule = ''@daily'', ctx_Trigger = ''manual'',
       ctx_Env = [(''FOO'', ''1'')]\<rparr>
     = [''PATH=/bin'', ''FOO=1'', ''PICOCRON_JOB_NAME=backup'', ''PICOCRON_TRIGGER=manual''] \<and>
   ''CRONBAT_JOB_NAME=backup'' \<notin> set (BuildEnv [''PATH=/bin''] []
      \<lparr>ctx_JobName = ''backup'', ctx_Schedule = ''@daily'', ctx_Trigger = ''manual'',
       ctx_Env = [(''FOO'', ''1'')]\<rparr>) \<and>
   ''CRONBAT_TRIGGER=manual'' \<notin> set (BuildEnv [''PATH=/bin''] []
      \<lparr>ctx_JobName = ''backup'', ctx_Schedule = ''@daily'', ctx_Trigger = ''manual'',
       ctx_Env = [(''FOO'', ''1'')]\<rparr>)"
  by (simp add: BuildEnv_def overlay_def split_env_def)

section \<open>The run store\<close>

lemma c_id_on_conflict_update [simp]: "c_id (on_conflict_update old r) = c_id old"
  by (simp add: on_conflict_update_def)

lemma c_id_insert_values [simp]: "c_id (insert_values fmt run) = ID run"
  by (simp add: insert_values_def)

lemma find_upsert_fresh:
  "c_id r \<notin> c_id ` set xs \<Longrightarrow> find (\<lambda>rw. c_id rw = c_id r) (upsert r xs) = Some r"
  by (induction xs) auto

lemma find_upsert_conflict:
  "find (\<lambda>rw. c_id rw = c_id r) xs = Some old \<Longrightarrow>
   find (\<lambda>rw. c_id rw = c_id r) (upsert r xs) = Some (on_conflict_update old r)"
  by (induction xs) (auto split: if_splits)

lemma find_upsert_same:
  "\<exists>old. find (\<lambda>rw. c_id rw = c_id r) (upsert r xs) = Some (on_conflict_update old r)"
proof (induction xs)
  case Nil
  have "on_conflict_update r r = r" by (simp add: on_conflict_update_def)
  then have "find (\<lambda>rw. c_id rw = c_id r) (upsert r []) = Some (on_conflict_update r r)" by simp
  then show ?case by blast
next
  case (Cons x xs)
  then show ?case by (cases "c_id x = c_id r") auto
qed

lemma nullString_roundtrip: "(case nullString s of Some v \<Rightarrow> v | None \<Rightarrow> []) = s"
  by (simp add: nullString_def)

lemma nullInt64_roundtrip: "(case nullInt64 v of Some v \<Rightarrow> v | None \<Rightarrow> 0) = v"
  by (simp add: nullInt64_def)

text \<open>
  C4 (upsert on \<open>id\<close>).  Let the store be open and hold no row with the id of the first
  record.  After \<open>RecordRun\<close> of a first record and \<open>RecordRun\<close> of a second record
  with the same non-empty id, both calls succeed and \<open>GetRun\<close> of that id returns a
  record whose \<open>Status\<close>, \<open>ExitCode\<close>, \<open>FinishedAt\<close>, \<open>DurationMs\<close>, \<open>StdoutTail\<close>,
  \<open>StderrTail\<close>, \<open>ErrorMsg\<close>, \<open>LLMAnalysis\<close> and \<open>LLMTokensUsed\<close> are those of the second
  record, and whose \<open>ID\<close>, \<open>JobName\<close>, \<open>StartedAt\<close>, \<open>Trigger\<close> and \<open>CreatedAt\<close> are
  those the first call wrote (\<open>r1\<close> is the first record as \<open>RecordRun\<close> left it, with
  its \<open>CreatedAt\<close> filled in).  The standard library is assumed to parse back the
  three instants it formatted.
\<close>

theorem RecordRun_upsert_write_once:
  assumes "\<not> closed s"
    and fresh: "ID r1 \<notin> c_id ` set (runs s)"
    and first: "RecordRun fmt id1 now1 s r_running = (r1, s1, e1)"
    and nonempty: "ID r1 \<noteq> []"
    and same: "ID r_done = ID r1"
    and second: "RecordRun fmt id2 now2 s1 r_done = (r2, s2, e2)"
    and roundtrip: "\<forall>t \<in> insert (StartedAt r1) (insert (CreatedAt r1) (set_option (FinishedAt r_done))).
                      prs (fmt t) = Some t"
  shows "e1 = None \<and> e2 = None \<and>
         GetRun prs s2 (ID r1) = Inr (Some
           \<lparr>ID = ID r1, JobName = JobName r1, Status = Status r_done, ExitCode = ExitCode r_done,
            StartedAt = StartedAt r1, FinishedAt = FinishedAt r_done, DurationMs = DurationMs r_done,
            StdoutTail = StdoutTail r_done, StderrTail = StderrTail r_done, ErrorMsg = ErrorMsg r_done,
            Trigger = Trigger r1, LLMAnalysis = LLMAnalysis r_done,
            LLMTokensUsed = LLMTokensUsed r_done, CreatedAt = CreatedAt r1\<rparr>)"
proof -
  from first \<open>\<not> closed s\<close> have s1: "s1 = s\<lparr>runs := upsert (insert_values fmt r1) (runs s)\<rparr>"
    and e1: "e1 = None"
    by (auto simp: RecordRun_def Let_def split: if_splits)
  have open1: "\<not> closed s1" using s1 \<open>\<not> closed s\<close> by simp
  define d where "d = (if CreatedAt r_done = 0 then r_done\<lparr>CreatedAt := now2\<rparr> else r_done)"
  from second open1 same nonempty
  have s2: "s2 = s1\<lparr>runs := upsert (insert_values fmt d) (runs s1)\<rparr>" and e2: "e2 = None"
    by (auto simp: RecordRun_def Let_def d_def split: if_splits)
  have idd: "ID d = ID r1" using same by (simp add: d_def)
  have f1: "find (\<lambda>rw. c_id rw = ID r1) (runs s1) = Some (insert_values fmt r1)"
    using find_upsert_fresh [of "insert_values fmt r1" "runs s"] fresh s1 by simp
  have f2: "find (\<lambda>rw. c_id rw = ID r1) (runs s2)
              = Some (on_conflict_update (insert_values fmt r1) (insert_values fmt d))"
    using find_upsert_conflict [of "insert_values fmt d" "runs s1" "insert_values fmt r1"] f1 idd s2
    by simp
  have fin: "parseTimePtr prs (formatTimePtr fmt (FinishedAt r_done)) = Some (FinishedAt r_done)"
    using roundtrip
    by (cases "FinishedAt r_done") (simp_all add: parseTimePtr_def formatTimePtr_def parseTime_def)
  have fd: "FinishedAt d = FinishedAt r_done" by (simp add: d_def)
  have scan: "scanRun prs (on_conflict_update (insert_values fmt r1) (insert_values fmt d)) = Inr
           \<lparr>ID = ID r1, JobName = JobName r1, Status = Status r_done, ExitCode = ExitCode r_done,
            StartedAt = StartedAt r1, FinishedAt = FinishedAt r_done, DurationMs = DurationMs r_done,
            StdoutTail = StdoutTail r_done, StderrTail = StderrTail r_done, ErrorMsg = ErrorMsg r_done,
            Trigger = Trigger r1, LLMAnalysis = LLMAnalysis r_done,
            LLMTokensUsed = LLMTokensUsed r_done, CreatedAt = CreatedAt r1\<rparr>"
    using roundtrip fin
    by (simp add: scanRun_def on_conflict_update_def insert_values_def parseTime_def formatTime_def
        nullString_roundtrip nullInt64_roundtrip fd) (simp add: d_def)
  have "\<not> closed s2" using s2 open1 by simp
  then show ?thesis using f2 scan e1 e2 by (simp add: GetRun_def)
qed

theorem RecordRun_upsert_write_once_witness:
  "\<not> closed \<lparr>runs = [], closed = False\<rparr> \<and>
   ID (sample_running\<lparr>CreatedAt := 2000000000\<rparr>) \<notin> c_id ` set (runs \<lparr>runs = [], closed = False\<rparr>) \<and>
   RecordRun sample_fmt ''01J0000000000000000000000C'' 2000000000 \<lparr>runs = [], closed = False\<rparr> sample_running
     = (sample_running\<lparr>CreatedAt := 2000000000\<rparr>,
        \<lparr>runs = [insert_values sample_fmt (sample_running\<lparr>CreatedAt := 2000000000\<rparr>)], closed = False\<rparr>,
        None) \<and>
   ID sample_done = ID (sample_running\<lparr>CreatedAt := 2000000000\<rparr>) \<and>
   GetRun sample_prs
     (fst (snd (RecordRun sample_fmt ''01J0000000000000000000000D'' 3000000000
        \<lparr>runs = [insert_values sample_fmt (sample_running\<lparr>CreatedAt := 2000000000\<rparr>)], closed = False\<rparr>
        sample_done)))
     ''01J0000000000000000000000A''
     = Inr (Some
         \<lparr>ID = ''01J0000000000000000000000A'', JobName = ''slow'', Status = ''failure'', ExitCode = 3,
          StartedAt = 1000000000, FinishedAt = Some 3000000000, DurationMs = 12,
          StdoutTail = ''hello!'', StderrTail = [], ErrorMsg = ''exit status 3'',
          Trigger = ''manual'', LLMAnalysis = ''n/a'', LLMTokensUsed = 7, CreatedAt = 2000000000\<rparr>)"
proof -
  let ?s = "\<lparr>runs = [], closed = False\<rparr>"
  let ?r1 = "sample_running\<lparr>CreatedAt := 2000000000\<rparr>"
  let ?s1 = "\<lparr>runs = [insert_values sample_fmt ?r1], closed = False\<rparr>"
  have a: "\<not> closed ?s" by simp
  have b: "ID ?r1 \<notin> c_id ` set (runs ?s)" by simp
  have c: "RecordRun sample_fmt ''01J0000000000000000000000C'' 2000000000 ?s sample_running
             = (?r1, ?s1, None)"
    by (simp add: RecordRun_def sample_running_def Let_def)
  have d: "ID ?r1 \<noteq> []" by (simp add: sample_running_def)
  have e: "ID sample_done = ID ?r1" by (simp add: sample_done_def sample_running_def)
  obtain r2 s2 e2 where f:
    "RecordRun sample_fmt ''01J0000000000000000000000D'' 3000000000 ?s1 sample_done = (r2, s2, e2)"
    by (metis prod_cases3)
  have g: "\<forall>t \<in> insert (StartedAt ?r1) (insert (CreatedAt ?r1) (set_option (FinishedAt sample_done))).
             sample_prs (sample_fmt t) = Some t"
    by (simp add: sample_running_def sample_done_def sample_prs_def sample_fmt_def)
  from RecordRun_upsert_write_once [OF a b c d e f g] f a b c e
  show ?thesis by (simp add: sample_running_def sample_done_def)
qed

lemma scan_rows_all:
  "\<forall>rw\<in>set rws. \<exists>r. scanRun prs rw = Inr r \<Longrightarrow>
   \<exists>rs. scan_rows prs rws = Inr rs \<and> map ID rs = map c_id rws"
proof (induction rws)
  case Nil
  then show ?case by simp
next
  case (Cons rw rws)
  then obtain r where r: "scanRun prs rw = Inr r" by auto
  then have "ID r = c_id rw"
    by (auto simp: scanRun_def split: option.splits)
  with Cons r show ?case by auto
qed

text \<open>
  What \<open>ListRuns\<close> does with \<open>Limit\<close> and \<open>Offset\<close>.  The \<open>LIMIT\<close> clause is added
  only when \<open>Limit > 0\<close>, so on an open store every \<open>Limit \<le> 0\<close>, negative or 0,
  with \<open>Offset \<le> 0\<close> selects exactly the rows that match the job-name filter (all
  rows when the filter is empty), ordered by the stored \<open>started_at\<close> text
  descending, and returns their scan; nothing is rejected.
\<close>

lemma ListRuns_limit_not_positive:
  assumes "\<not> closed s" and "Limit opts \<le> 0" and "Offset opts \<le> 0"
  shows "\<exists>rws. select_runs s opts = Inr rws \<and>
           mset rws = mset (filter (\<lambda>rw. lo_JobName opts = [] \<or> c_job_name rw = lo_JobName opts) (runs s)) \<and>
           sorted (rev (map c_started_at rws)) \<and>
           ListRuns prs s opts = scan_rows prs rws \<and>
           ((\<forall>rw\<in>set rws. \<exists>r. scanRun prs rw = Inr r) \<longrightarrow>
              (\<exists>rs. ListRuns prs s opts = Inr rs \<and> map ID rs = map c_id rws))"
proof -
  define matching where "matching =
      (if lo_JobName opts \<noteq> [] then filter (\<lambda>rw. c_job_name rw = lo_JobName opts) (runs s) else runs s)"
  define rws where "rws = rev (sort_key c_started_at (rev matching))"
  have sel: "select_runs s opts = Inr rws"
    using assms by (simp add: select_runs_def Let_def rws_def matching_def)
  have m: "mset rws = mset (filter (\<lambda>rw. lo_JobName opts = [] \<or> c_job_name rw = lo_JobName opts) (runs s))"
    by (simp add: rws_def matching_def)
  have srt: "sorted (rev (map c_started_at rws))"
    by (simp add: rws_def rev_map [symmetric])
  have lr: "ListRuns prs s opts = scan_rows prs rws"
    by (simp add: ListRuns_def sel)
  show ?thesis using sel m srt lr scan_rows_all [of rws prs] by auto
qed

text \<open>
  With \<open>Limit = -1\<close> the two runs of the sample store are returned, newest
  \<open>started_at\<close> first, and no error; with \<open>Limit = 0\<close> and \<open>Offset = 1\<close> the statement
  is rejected.
\<close>

lemma ListRuns_negative_limit_not_rejected:
  "ListRuns sample_prs sample_store \<lparr>lo_JobName = [], Limit = - 1, Offset = 0\<rparr>
     = Inr [sample_done\<lparr>ID := ''01J0000000000000000000000B''\<rparr>,
            sample_running\<lparr>CreatedAt := 1000000000\<rparr>]"
  by (simp add: ListRuns_def select_runs_def sample_store_def sample_done_def sample_running_def
      insert_values_def sample_fmt_def sample_prs_def scanRun_def formatTime_def formatTimePtr_def
      parseTime_def parseTimePtr_def nullString_def nullInt64_def)

lemma ListRuns_offset_without_limit:
  "ListRuns sample_prs sample_store \<lparr>lo_JobName = [], Limit = 0, Offset = 1\<rparr>
     = Inl (SyntaxError ''near OFFSET: syntax error'')"
  by (simp add: ListRuns_def select_runs_def sample_store_def)

text \<open>
  C7 (\<open>limit = 0\<close> returns all matching runs ordered by \<open>started_at\<close> descending; a
  negative limit is rejected).  \<open>sample_first\<close> started at 1 s and \<open>sample_second\<close>
  half a second later; \<open>RecordRun\<close> stores them with \<open>started_at\<close> texts that end in
  \<open>:01Z\<close> and \<open>:01.5Z\<close>, and \<open>Z\<close> is greater than the full stop.  \<open>ListRuns\<close> with
  \<open>Limit = 0\<close> returns both runs, the earlier one first: the result is not in
  descending order of \<open>started_at\<close>, which is also what the comment on \<open>ListRuns\<close>
  promises.
\<close>

theorem ListRuns_earlier_run_first:
  "RecordRun sample_fmt_half ''01J0000000000000000000000C'' 2000000000
       \<lparr>runs = [], closed = False\<rparr> sample_first
     = (sample_first, \<lparr>runs = [insert_values sample_fmt_half sample_first], closed = False\<rparr>, None) \<and>
   RecordRun sample_fmt_half ''01J0000000000000000000000C'' 2000000000
       \<lparr>runs = [insert_values sample_fmt_half sample_first], closed = False\<rparr> sample_second
     = (sample_second, sample_store_half, None) \<and>
   c_started_at (insert_values sample_fmt_half sample_first) = ''0001-01-01T00:00:01Z'' \<and>
   c_started_at (insert_values sample_fmt_half sample_second) = ''0001-01-01T00:00:01.5Z'' \<and>
   ListRuns sample_prs_half sample_store_half \<lparr>lo_JobName = ''slow'', Limit = 0, Offset = 0\<rparr>
     = Inr [sample_first, sample_second] \<and>
   StartedAt sample_first < StartedAt sample_second"
  by (simp add: RecordRun_def Let_def ListRuns_def select_runs_def sample_store_half_def sample_first_def
      sample_second_def sample_running_def insert_values_def sample_fmt_half_def
      sample_prs_half_def sample_fmt_def sample_prs_def scanRun_def formatTime_def
      formatTimePtr_def parseTime_def parseTimePtr_def nullString_def nullInt64_def)

section \<open>Executing a job\<close>

lemma NewRingBuffer_ringBufSize:
  "NewRingBuffer ringBufSize
     = Inr \<lparr>buf = replicate 65536 (CHR 0x00), size = 65536, pos = 0, full = False\<rparr>"
  by (simp add: NewRingBuffer_def ringBufSize_def)

lemma Runner_Run_returns:
  "\<exists>result opts1 cmd. Runner_Run environ command job timeout opts po = Inr (result, opts1, cmd)"
  by (simp add: Runner_Run_def NewRingBuffer_ringBufSize Let_def split: prod.splits)

lemma Runner_Run_exit_report:
  assumes "Runner_Run environ command job timeout opts po = Inr (result, opts1, cmd)"
  shows "res_ExitCode result =
           (case po_err po of None \<Rightarrow> 0 | Some (ExitError c msg) \<Rightarrow> c | Some (OtherError msg) \<Rightarrow> - 1)"
    and "res_Error result =
           (case po_err po of
              None \<Rightarrow> []
            | Some err \<Rightarrow> if timeout > 0 \<and> po_deadline_passed po then ''timeout''
                          else (case err of ExitError c msg \<Rightarrow> msg | OtherError msg \<Rightarrow> msg))"
    and "res_DurationMs result = po_duration_ms po"
  using assms
  by (auto simp: Runner_Run_def NewRingBuffer_ringBufSize Let_def
      split: prod.splits option.splits run_error.splits)

text \<open>
  C10 (a timeout that does not parse).  When the job's \<open>Timeout\<close> is non-empty and
  \<open>time.ParseDuration\<close> rejects it, \<open>executeJob\<close> returns the daemon unchanged, for
  any trigger, and so do the scheduler's callback and the manual trigger: the store
  holds no new row, the broker has published nothing (its counter and its channels
  are unchanged), and no subprocess was started.
\<close>

theorem executeJob_invalid_timeout:
  assumes "map_of (jobMap d) jname = Some j"
    and "Timeout j \<noteq> []"
    and "w_parseDuration w (Timeout j) = None"
  shows "executeJob w d jname trigger = Inr d \<and> on_fire w d jname = Inr d \<and>
         triggerRun w d jname = Inr d"
  using assms by (simp add: executeJob_def on_fire_def triggerRun_def ParseTimeout_def)

theorem executeJob_invalid_timeout_witness:
  "map_of (jobMap sample_daemon_bad_timeout) ''slow'' = Some (sample_job\<lparr>Timeout := ''soon''\<rparr>) \<and>
   Timeout (sample_job\<lparr>Timeout := ''soon''\<rparr>) \<noteq> [] \<and>
   w_parseDuration sample_world (Timeout (sample_job\<lparr>Timeout := ''soon''\<rparr>)) = None \<and>
   executeJob sample_world sample_daemon_bad_timeout ''slow'' ''manual'' = Inr sample_daemon_bad_timeout \<and>
   on_fire sample_world sample_daemon_bad_timeout ''slow'' = Inr sample_daemon_bad_timeout \<and>
   triggerRun sample_world sample_daemon_bad_timeout ''slow'' = Inr sample_daemon_bad_timeout"
proof -
  have a: "map_of (jobMap sample_daemon_bad_timeout) ''slow'' = Some (sample_job\<lparr>Timeout := ''soon''\<rparr>)"
    by (simp add: sample_daemon_bad_timeout_def)
  have b: "Timeout (sample_job\<lparr>Timeout := ''soon''\<rparr>) \<noteq> []" by simp
  have c: "w_parseDuration sample_world (Timeout (sample_job\<lparr>Timeout := ''soon''\<rparr>)) = None"
    by (simp add: sample_world_def sample_pd_def)
  show ?thesis
    using a b c executeJob_invalid_timeout [OF a b c] by simp
qed

text \<open>
  C8 (the terminal record).  For a job that is registered and enabled, whose timeout
  parses, on an open store and with a non-empty run id, \<open>executeJob\<close> returns, and the
  row stored under the run id afterwards has status \<open>success\<close> exactly when the
  runner's result has exit code 0 and an empty error, and \<open>failure\<close> otherwise; its
  \<open>exit_code\<close>, \<open>finished_at\<close>, \<open>duration_ms\<close>, \<open>stdout_tail\<close>, \<open>stderr_tail\<close> and
  \<open>error_msg\<close> are the values of the runner's result and of the clock reading taken
  after the run, as \<open>RecordRun\<close> binds them.
\<close>

theorem executeJob_terminal_record:
  assumes job: "map_of (jobMap d) jname = Some j"
    and enabled: "IsEnabled j"
    and timeout: "ParseTimeout (w_parseDuration w) j = Some timeout"
    and "open": "\<not> closed (st d)"
    and runid: "w_newRunID w 0 \<noteq> []"
  shows "\<exists>d' result opts1 cmd rw.
           Runner_Run (w_environ w) (Command j) (job_context j trigger) timeout
             (Some (run_options w d j)) (w_proc w) = Inr (result, opts1, cmd) \<and>
           executeJob w d jname trigger = Inr d' \<and>
           find (\<lambda>rw. c_id rw = w_newRunID w 0) (runs (st d')) = Some rw \<and>
           c_status rw = (if res_ExitCode result = 0 \<and> res_Error result = [] then ''success''
                          else ''failure'') \<and>
           c_exit_code rw = Some (res_ExitCode result) \<and>
           c_finished_at rw = Some (w_fmt w (w_now w 3)) \<and>
           c_duration_ms rw = Some (res_DurationMs result) \<and>
           c_stdout_tail rw = nullString (res_Stdout result) \<and>
           c_stderr_tail rw = nullString (res_Stderr result) \<and>
           c_error_msg rw = nullString (res_Error result)"
proof -
  obtain result opts1 cmd where run:
    "Runner_Run (w_environ w) (Command j) (job_context j trigger) timeout
       (Some (run_options w d j)) (w_proc w) = Inr (result, opts1, cmd)"
    using Runner_Run_returns by blast
  define run0 where "run0 = \<lparr>ID = w_newRunID w 0, JobName = jname, Status = ''running'', ExitCode = 0,
                         StartedAt = w_now w 0, FinishedAt = None, DurationMs = 0,
                         StdoutTail = [], StderrTail = [], ErrorMsg = [], Trigger = trigger,
                         LLMAnalysis = [], LLMTokensUsed = 0, CreatedAt = 0\<rparr>"
  obtain run1 st1 err1 where r1:
    "RecordRun (w_fmt w) (w_newRunID w 1) (w_now w 1) (st d) run0 = (run1, st1, err1)"
    by (metis prod_cases3)
  have id1: "ID run1 = w_newRunID w 0" and open1: "\<not> closed st1"
    using r1 runid "open" by (auto simp: RecordRun_def run0_def Let_def split: if_splits)
  define cw where "cw =
      (case (open_writers w d, opts1) of
         (Some _, Some os) \<Rightarrow>
           (case (ExtraStdout os, ExtraStderr os) of
              (Some wo, Some we) \<Rightarrow> Some (wo, we)
            | _ \<Rightarrow> None)
       | _ \<Rightarrow> None)"
  define result' where "result' =
      (case cw of
         None \<Rightarrow> result
       | Some (wo, we) \<Rightarrow>
           result\<lparr>res_StdoutLogPath := fst (w_paths w jname (w_newRunID w 0)),
                    res_StderrLogPath := snd (w_paths w jname (w_newRunID w 0)),
                    res_StdoutLogBytes := WrittenBytes wo,
                    res_StderrLogBytes := WrittenBytes we,
                    res_StdoutTruncated := Truncated wo,
                    res_StderrTruncated := Truncated we,
                    res_LogStorageWarning := (case w_closeErr w of Some m \<Rightarrow> m | None \<Rightarrow> [])\<rparr>)"
  have same: "res_ExitCode result' = res_ExitCode result" "res_Error result' = res_Error result"
          "res_DurationMs result' = res_DurationMs result"
          "res_Stdout result' = res_Stdout result" "res_Stderr result' = res_Stderr result"
    by (simp_all add: result'_def split: option.splits prod.splits)
  have "\<exists>d'. executeJob w d jname trigger = Inr d' \<and>
          st d' = fst (snd (RecordRun (w_fmt w) (w_newRunID w 2) (w_now w 4) st1
                              (finish_run run1 result' (w_now w 3))))"
    using job enabled timeout run r1
    by (auto simp: executeJob_def Let_def run0_def [symmetric] cw_def result'_def
        split: prod.splits)
  then obtain d' where d': "executeJob w d jname trigger = Inr d'"
    and std': "st d' = fst (snd (RecordRun (w_fmt w) (w_newRunID w 2) (w_now w 4) st1
                              (finish_run run1 result' (w_now w 3))))"
    by blast
  define run2 where "run2 = finish_run run1 result' (w_now w 3)"
  define run3 where "run3 = (if CreatedAt run2 = 0 then run2\<lparr>CreatedAt := w_now w 4\<rparr> else run2)"
  have id2: "ID run2 = w_newRunID w 0" using id1 by (simp add: run2_def finish_run_def Let_def)
  have runs': "runs (st d') = upsert (insert_values (w_fmt w) run3) (runs st1)"
    using std' open1 id2 runid
    by (simp add: RecordRun_def Let_def run2_def [symmetric] run3_def)
  have id3: "c_id (insert_values (w_fmt w) run3) = w_newRunID w 0"
    using id2 by (simp add: run3_def)
  obtain old where f: "find (\<lambda>rw. c_id rw = w_newRunID w 0) (runs (st d'))
      = Some (on_conflict_update old (insert_values (w_fmt w) run3))"
    using find_upsert_same [of "insert_values (w_fmt w) run3" "runs st1"] id3 runs' by auto
  have fields: "Status run3 = (if res_ExitCode result = 0 \<and> res_Error result = [] then ''success''
                          else ''failure'')"
      "ExitCode run3 = res_ExitCode result" "FinishedAt run3 = Some (w_now w 3)"
      "DurationMs run3 = res_DurationMs result" "StdoutTail run3 = res_Stdout result"
      "StderrTail run3 = res_Stderr result" "ErrorMsg run3 = res_Error result"
    using same by (auto simp: run3_def run2_def finish_run_def Let_def)
  show ?thesis
    using run d' f fields
    by (simp add: on_conflict_update_def insert_values_def formatTimePtr_def)
qed

theorem executeJob_terminal_record_witness:
  "map_of (jobMap sample_daemon) ''slow'' = Some sample_job \<and>
   IsEnabled sample_job \<and>
   ParseTimeout (w_parseDuration sample_world) sample_job = Some 100000000 \<and>
   \<not> closed (st sample_daemon) \<and>
   w_newRunID sample_world 0 \<noteq> [] \<and>
   (\<exists>d' result opts1 cmd rw.
       Runner_Run (w_environ sample_world) (Command sample_job) (job_context sample_job ''manual'')
         100000000 (Some (run_options sample_world sample_daemon sample_job)) (w_proc sample_world)
         = Inr (result, opts1, cmd) \<and>
       executeJob sample_world sample_daemon ''slow'' ''manual'' = Inr d' \<and>
       find (\<lambda>rw. c_id rw = w_newRunID sample_world 0) (runs (st d')) = Some rw \<and>
       c_status rw = (if res_ExitCode result = 0 \<and> res_Error result = [] then ''success''
                      else ''failure'') \<and>
       c_exit_code rw = Some (res_ExitCode result) \<and>
       c_finished_at rw = Some (w_fmt sample_world (w_now sample_world 3)) \<and>
       c_duration_ms rw = Some (res_DurationMs result) \<and>
       c_stdout_tail rw = nullString (res_Stdout result) \<and>
       c_stderr_tail rw = nullString (res_Stderr result) \<and>
       c_error_msg rw = nullString (res_Error result))"
proof -
  have a: "map_of (jobMap sample_daemon) ''slow'' = Some sample_job"
    by (simp add: sample_daemon_def)
  have b: "IsEnabled sample_job" by (simp add: IsEnabled_def sample_job_def)
  have c: "ParseTimeout (w_parseDuration sample_world) sample_job = Some 100000000"
    by (simp add: ParseTimeout_def sample_world_def sample_job_def sample_pd_def)
  have d: "\<not> closed (st sample_daemon)" by (simp add: sample_daemon_def)
  have e: "w_newRunID sample_world 0 \<noteq> []" by (simp add: sample_world_def)
  from executeJob_terminal_record [OF a b c d e, of "''manual''"] a b c d e
  show ?thesis by blast
qed

section \<open>The schedule queue\<close>

lemma length_Swap [simp]: "length (Swap h i j) = length h"
  by (simp add: Swap_def)

lemma mset_Swap: "i < length h \<Longrightarrow> j < length h \<Longrightarrow> mset (Swap h i j) = mset h"
  unfolding Swap_def by (rule mset_swap)

lemma nth_Swap_other: "k \<noteq> i \<Longrightarrow> k \<noteq> j \<Longrightarrow> Swap h i j ! k = h ! k"
  by (simp add: Swap_def)

lemma nth_Swap_fst: "i < length h \<Longrightarrow> j < length h \<Longrightarrow> Swap h i j ! i = h ! j"
  by (cases "i = j") (simp_all add: Swap_def)

lemma nth_Swap_snd: "j < length h \<Longrightarrow> Swap h i j ! j = h ! i"
  by (simp add: Swap_def)

lemma parent_less: "0 < j \<Longrightarrow> parent j < j"
  unfolding parent_def by arith

lemma parent_child: "0 < k \<Longrightarrow> parent k = i \<longleftrightarrow> k = 2 * i + 1 \<or> k = 2 * i + 2"
  unfolding parent_def by arith

lemma heap_up_stop: "j = 0 \<or> \<not> Less h j (parent j) \<Longrightarrow> heap_up h j = h"
  by (subst heap_up.simps) (auto simp: Let_def parent_def)

lemma heap_up_step:
  "0 < j \<Longrightarrow> Less h j (parent j) \<Longrightarrow> heap_up h j = heap_up (Swap h (parent j) j) (parent j)"
  using parent_less [of j] by (subst heap_up.simps) (auto simp: Let_def parent_def)

lemma heap_up_induct [case_names step]:
  assumes "\<And>h j. (0 < j \<Longrightarrow> Less h j (parent j) \<Longrightarrow> P (Swap h (parent j) j) (parent j)) \<Longrightarrow> P h j"
  shows "P h j"
proof (induction h j rule: heap_up.induct)
  case (1 h j)
  show ?case
  proof (rule assms)
    assume "0 < j" "Less h j (parent j)"
    then show "P (Swap h (parent j) j) (parent j)"
      using "1.IH" [OF refl] parent_less [of j] by (simp add: parent_def)
  qed
qed

lemma min_child_cases: "min_child h i n = 2 * i + 1 \<or> min_child h i n = 2 * i + 2 \<and> 2 * i + 2 < n"
  by (simp add: min_child_def)

lemma down_loop_stop:
  "n \<le> 2 * i + 1 \<or> \<not> Less h (min_child h i n) i \<Longrightarrow> down_loop h i n = (h, i)"
  by (subst down_loop.simps) (auto simp: Let_def min_child_def)

lemma down_loop_step:
  "2 * i + 1 < n \<Longrightarrow> Less h (min_child h i n) i \<Longrightarrow>
   down_loop h i n = down_loop (Swap h i (min_child h i n)) (min_child h i n) n"
  by (subst down_loop.simps) (auto simp: Let_def min_child_def)

lemma down_loop_induct [case_names step]:
  assumes "\<And>h i n. (2 * i + 1 < n \<Longrightarrow> Less h (min_child h i n) i \<Longrightarrow>
              P (Swap h i (min_child h i n)) (min_child h i n) n) \<Longrightarrow> P h i n"
  shows "P h i n"
proof (induction h i n rule: down_loop.induct)
  case (1 h i n)
  show ?case
  proof (rule assms)
    assume a: "2 * i + 1 < n" "Less h (min_child h i n) i"
    then show "P (Swap h i (min_child h i n)) (min_child h i n) n"
      using "1.IH" [OF refl _ refl] by (auto simp: min_child_def)
  qed
qed

lemma heap_up_props:
  "j < length h \<Longrightarrow>
   length (heap_up h j) = length h \<and> mset (heap_up h j) = mset h \<and>
   (\<forall>k. j < k \<longrightarrow> heap_up h j ! k = h ! k)"
proof (induction h j rule: heap_up_induct)
  case (step h j)
  show ?case
  proof (cases "0 < j \<and> Less h j (parent j)")
    case False
    then show ?thesis by (simp add: heap_up_stop)
  next
    case True
    then have pj: "parent j < j" using parent_less by simp
    have "length (heap_up (Swap h (parent j) j) (parent j)) = length h \<and>
          mset (heap_up (Swap h (parent j) j) (parent j)) = mset h \<and>
          (\<forall>k. parent j < k \<longrightarrow> heap_up (Swap h (parent j) j) (parent j) ! k = Swap h (parent j) j ! k)"
      using step.IH True pj step.prems by (simp add: mset_Swap)
    then show ?thesis
      using True pj by (auto simp: heap_up_step nth_Swap_other)
  qed
qed

lemma down_loop_props:
  "n \<le> length h \<Longrightarrow>
   length (fst (down_loop h i n)) = length h \<and> mset (fst (down_loop h i n)) = mset h \<and>
   (\<forall>k. n \<le> k \<longrightarrow> fst (down_loop h i n) ! k = h ! k) \<and>
   (\<forall>k. k < i \<longrightarrow> fst (down_loop h i n) ! k = h ! k) \<and>
   i \<le> snd (down_loop h i n)"
proof (induction h i n rule: down_loop_induct)
  case (step h i n)
  show ?case
  proof (cases "2 * i + 1 < n \<and> Less h (min_child h i n) i")
    case False
    then have "down_loop h i n = (h, i)" by (intro down_loop_stop) auto
    then show ?thesis by simp
  next
    case True
    let ?j = "min_child h i n"
    have jn: "?j < n" and ij: "i < ?j" using True min_child_cases [of h i n] by auto
    have IH: "length (fst (down_loop (Swap h i ?j) ?j n)) = length h \<and>
              mset (fst (down_loop (Swap h i ?j) ?j n)) = mset h \<and>
              (\<forall>k. n \<le> k \<longrightarrow> fst (down_loop (Swap h i ?j) ?j n) ! k = Swap h i ?j ! k) \<and>
              (\<forall>k. k < ?j \<longrightarrow> fst (down_loop (Swap h i ?j) ?j n) ! k = Swap h i ?j ! k) \<and>
              ?j \<le> snd (down_loop (Swap h i ?j) ?j n)"
      using step.IH True jn ij step.prems by (simp add: mset_Swap)
    have eq: "down_loop h i n = down_loop (Swap h i ?j) ?j n"
      using True by (simp add: down_loop_step)
    have a: "\<And>k. n \<le> k \<Longrightarrow> Swap h i ?j ! k = h ! k"
      using jn ij by (auto intro!: nth_Swap_other)
    have b: "\<And>k. k < i \<Longrightarrow> Swap h i ?j ! k = h ! k"
      using ij by (auto intro!: nth_Swap_other)
    show ?thesis
      unfolding eq using IH ij a b by auto
  qed
qed

lemma heap_Push_mset: "mset (heap_Push h x) = add_mset x (mset h)"
  using heap_up_props [of "length h" "h @ [x]"] by (simp add: heap_Push_def)

lemma heap_Push_length: "length (heap_Push h x) = Suc (length h)"
  using heap_up_props [of "length h" "h @ [x]"] by (simp add: heap_Push_def)

lemma mset_butlast_last: "xs \<noteq> [] \<Longrightarrow> add_mset (last xs) (mset (butlast xs)) = mset xs"
  by (metis append_butlast_last_id mset.simps(2) mset_append union_mset_add_mset_right add.right_neutral mset.simps(1))

lemma heap_Pop_props:
  assumes "h \<noteq> []"
  shows "\<exists>h'. heap_Pop h = Inr (h', h ! 0) \<and> add_mset (h ! 0) (mset h') = mset h \<and>
              Suc (length h') = length h"
proof -
  let ?n = "length h - 1"
  let ?h1 = "Swap h 0 ?n"
  let ?h2 = "fst (down_loop ?h1 0 ?n)"
  have n: "?n < length h" using assms by (cases h) auto
  have z: "0 < length h" using assms by simp
  have p: "length ?h2 = length h \<and> mset ?h2 = mset h \<and> ?h2 ! ?n = ?h1 ! ?n"
    using down_loop_props [of ?n ?h1 0] n mset_Swap [OF z n] by simp
  have "?h1 ! ?n = h ! 0" using n by (simp add: nth_Swap_snd)
  moreover have ne: "?h2 \<noteq> []" using p assms by auto
  moreover have "last ?h2 = ?h2 ! (length ?h2 - 1)" using ne by (rule last_conv_nth)
  ultimately have l: "last ?h2 = h ! 0" using p by simp
  have eq: "heap_Pop h = Inr (butlast ?h2, last ?h2)"
    using assms by (simp add: heap_Pop_def heap_down_def Let_def split: prod.splits)
  show ?thesis
    using eq l mset_butlast_last [OF ne] p assms by (cases h) auto
qed

lemma heap_Remove_props:
  assumes "i < length h"
  shows "\<exists>h'. heap_Remove h i = Inr (h', h ! i) \<and> add_mset (h ! i) (mset h') = mset h \<and>
              Suc (length h') = length h"
proof (cases "length h - 1 = i")
  case True
  then have "heap_Remove h i = Inr (butlast h, last h)"
    using assms by (auto simp: heap_Remove_def)
  moreover have "h \<noteq> []" using assms by auto
  moreover from this have "last h = h ! i" using True by (simp add: last_conv_nth)
  ultimately show ?thesis using mset_butlast_last [of h] by (cases h) auto
next
  case False
  let ?n = "length h - 1"
  let ?h1 = "Swap h i ?n"
  let ?h2 = "fst (down_loop ?h1 i ?n)"
  let ?h3 = "if \<not> (i < snd (down_loop ?h1 i ?n)) then heap_up ?h2 i else ?h2"
  have n: "?n < length h" and i: "i < ?n" using assms False by auto
  have p: "length ?h2 = length h \<and> mset ?h2 = mset h \<and> ?h2 ! ?n = ?h1 ! ?n"
    using down_loop_props [of ?n ?h1 i] n assms by (simp add: mset_Swap)
  have q: "length ?h3 = length h \<and> mset ?h3 = mset h \<and> ?h3 ! ?n = ?h1 ! ?n"
    using heap_up_props [of i ?h2] p i assms by auto
  have "?h1 ! ?n = h ! i" using n by (simp add: nth_Swap_snd)
  moreover have ne: "?h3 \<noteq> []" using q assms by auto
  moreover have "last ?h3 = ?h3 ! (length ?h3 - 1)" using ne by (rule last_conv_nth)
  ultimately have l: "last ?h3 = h ! i" using q by simp
  have eq: "heap_Remove h i = Inr (butlast ?h3, last ?h3)"
    using assms False by (auto simp: heap_Remove_def heap_down_def Let_def split: prod.splits)
  show ?thesis
    using eq l mset_butlast_last [OF ne] q assms by (cases h) auto
qed

lemma first_index_None: "first_index P xs = None \<longleftrightarrow> (\<forall>x\<in>set xs. \<not> P x)"
  by (induction xs) auto

lemma first_index_Some: "first_index P xs = Some i \<Longrightarrow> i < length xs \<and> P (xs ! i)"
  by (induction xs arbitrary: i) (auto split: if_splits)

lemma removeLockedByName_absent:
  "name \<notin> jobName ` set h \<Longrightarrow> removeLockedByName h name = Inr h"
proof -
  assume "name \<notin> jobName ` set h"
  then have "first_index (\<lambda>e. jobName e = name) h = None"
    by (auto simp: first_index_None)
  then show ?thesis by (simp add: removeLockedByName_def)
qed

lemma removeLockedByName_present:
  assumes "name \<in> jobName ` set h"
  shows "\<exists>h' e. removeLockedByName h name = Inr h' \<and> jobName e = name \<and>
                add_mset e (mset h') = mset h"
proof -
  from assms obtain i where i: "first_index (\<lambda>e. jobName e = name) h = Some i"
    using first_index_None [of "\<lambda>e. jobName e = name" h] by fastforce
  then have il: "i < length h" and nm: "jobName (h ! i) = name"
    using first_index_Some [OF i] by auto
  from heap_Remove_props [OF il] obtain h' where
    "heap_Remove h i = Inr (h', h ! i)" "add_mset (h ! i) (mset h') = mset h" by blast
  then show ?thesis using i nm by (auto simp: removeLockedByName_def)
qed

lemma removeLockedByName_distinct:
  assumes d: "distinct (map jobName h)"
  shows "\<exists>h'. removeLockedByName h name = Inr h' \<and>
              mset h' = filter_mset (\<lambda>e. jobName e \<noteq> name) (mset h) \<and>
              distinct (map jobName h') \<and> name \<notin> jobName ` set h'"
proof (cases "name \<in> jobName ` set h")
  case False
  then have "filter_mset (\<lambda>e. jobName e \<noteq> name) (mset h) = mset h"
    by (auto simp: filter_mset_eq_conv)
  with False d show ?thesis by (simp add: removeLockedByName_absent)
next
  case True
  from removeLockedByName_present [OF True] obtain h' e where
    r: "removeLockedByName h name = Inr h'" and e: "jobName e = name"
    and m: "add_mset e (mset h') = mset h" by blast
  have mm: "mset (map jobName h) = add_mset name (mset (map jobName h'))"
    using m e by (metis image_mset_add_mset mset_map)
  have "mset (map jobName h) = mset (name # map jobName h')" using mm by simp
  then have "distinct (name # map jobName h')"
    using d mset_eq_imp_distinct_iff by blast
  then have d': "distinct (map jobName h')" and notin: "name \<notin> jobName ` set h'"
    by auto
  have "filter_mset (\<lambda>e. jobName e \<noteq> name) (mset h) = filter_mset (\<lambda>e. jobName e \<noteq> name) (mset h')"
    using m [symmetric] e by simp
  also have "\<dots> = mset h'"
    using notin by (auto simp: filter_mset_eq_conv)
  finally show ?thesis
    using r d' notin by auto
qed

lemma nth_Swap:
  "a < length h \<Longrightarrow> b < length h \<Longrightarrow>
   Swap h a b ! k = (if k = b then h ! a else if k = a then h ! b else h ! k)"
  by (simp add: Swap_def)

lemma min_child_least:
  assumes "2 * i + 1 < n" and "0 < k" and "k < n" and "parent k = i"
  shows "key h (min_child h i n) \<le> key h k"
proof -
  from assms(2,4) have "k = 2 * i + 1 \<or> k = 2 * i + 2" by (simp add: parent_child)
  then show ?thesis using assms(3) by (auto simp: min_child_def Less_def)
qed

lemma parent_min_child: "parent (min_child h i n) = i"
  using min_child_cases [of h i n] by (auto simp: parent_child)

lemma down_step_inv:
  assumes B: "heap_except n h i" and n: "n \<le> length h" and c: "2 * i + 1 < n"
    and less: "Less h (min_child h i n) i"
  shows "heap_except n (Swap h i (min_child h i n)) (min_child h i n) \<and>
         key (Swap h i (min_child h i n)) (parent (min_child h i n))
           \<le> key (Swap h i (min_child h i n)) (min_child h i n)"
proof -
  let ?j = "min_child h i n"
  let ?h' = "Swap h i ?j"
  have jn: "?j < n" and ij: "i < ?j" using c min_child_cases [of h i n] by auto
  have pj: "parent ?j = i" by (rule parent_min_child)
  have il: "i < length h" and jl: "?j < length h" using jn ij n by auto
  have sw: "\<And>k. ?h' ! k = (if k = ?j then h ! i else if k = i then h ! ?j else h ! k)"
    using nth_Swap [OF il jl] by simp
  have lt: "key h ?j < key h i" using less by (simp add: Less_def)
  have "heap_except n ?h' ?j"
    unfolding heap_except_def
  proof (intro allI impI conjI)
    fix k assume k: "0 < k \<and> k < n" and a: "parent k \<noteq> ?j \<and> k \<noteq> ?j"
    show "key ?h' (parent k) \<le> key ?h' k"
    proof (cases "k = i")
      case True
      then have "0 < i" using k by simp
      moreover have "parent i \<noteq> i" "parent i \<noteq> ?j"
        using parent_less [of i] \<open>0 < i\<close> ij by auto
      moreover have "key h (parent i) \<le> key h ?j"
        using B jn ij pj \<open>0 < i\<close> unfolding heap_except_def by (metis neq0_conv not_less0)
      moreover have "i \<noteq> ?j" using ij by simp
      ultimately show ?thesis using True by (simp add: sw)
    next
      case False
      show ?thesis
      proof (cases "parent k = i")
        case True
        then have "key h ?j \<le> key h k" using min_child_least [OF c] k by simp
        then show ?thesis using True False a ij by (simp add: sw)
      next
        case False2: False
        have "key h (parent k) \<le> key h k"
          using B k False False2 unfolding heap_except_def by blast
        then show ?thesis using False False2 a by (simp add: sw)
      qed
    qed
  next
    fix k assume k: "0 < k \<and> k < n" and a: "parent k = ?j \<and> 0 < ?j"
    have kj: "?j < k" using a parent_less [of k] k by auto
    then have ki: "k \<noteq> i" "k \<noteq> ?j" using ij by auto
    have "parent k \<noteq> i" using a ij by auto
    then have "key h (parent k) \<le> key h k"
      using B k ki unfolding heap_except_def by blast
    then show "key ?h' (parent ?j) \<le> key ?h' k"
      using a ki ij by (simp add: sw pj)
  qed
  moreover have "key ?h' (parent ?j) \<le> key ?h' ?j"
    using lt ij by (simp add: sw pj)
  ultimately show ?thesis by blast
qed

lemma heap_uptoI_except:
  assumes "heap_except n h i"
    and "0 < i \<and> i < n \<longrightarrow> key h (parent i) \<le> key h i"
    and "\<And>k. 0 < k \<Longrightarrow> k < n \<Longrightarrow> parent k = i \<Longrightarrow> key h i \<le> key h k"
  shows "heap_upto n h"
  unfolding heap_upto_def
proof (intro allI impI)
  fix k assume k: "0 < k \<and> k < n"
  show "key h (parent k) \<le> key h k"
  proof (cases "k = i")
    case True
    then show ?thesis using assms(2) k by simp
  next
    case False
    show ?thesis
    proof (cases "parent k = i")
      case True
      then show ?thesis using assms(3) k by simp
    next
      case False2: False
      then show ?thesis using assms(1) k False unfolding heap_except_def by blast
    qed
  qed
qed

lemma down_loop_heap:
  "heap_except n h i \<Longrightarrow> (0 < i \<and> i < n \<longrightarrow> key h (parent i) \<le> key h i) \<Longrightarrow> n \<le> length h \<Longrightarrow>
   heap_upto n (fst (down_loop h i n))"
proof (induction h i n rule: down_loop_induct)
  case (step h i n)
  show ?case
  proof (cases "2 * i + 1 < n \<and> Less h (min_child h i n) i")
    case True
    let ?j = "min_child h i n"
    have "heap_except n (Swap h i ?j) ?j \<and> key (Swap h i ?j) (parent ?j) \<le> key (Swap h i ?j) ?j"
      using down_step_inv [of n h i] step.prems True by simp
    then have "heap_upto n (fst (down_loop (Swap h i ?j) ?j n))"
      using step.IH True step.prems by simp
    then show ?thesis using True by (simp add: down_loop_step)
  next
    case False
    then have eq: "down_loop h i n = (h, i)" by (intro down_loop_stop) auto
    have "heap_upto n h"
    proof (rule heap_uptoI_except [OF step.prems(1) step.prems(2)])
      fix k assume k: "0 < k" "k < n" "parent k = i"
      then have "k = 2 * i + 1 \<or> k = 2 * i + 2" by (simp add: parent_child)
      then have c: "2 * i + 1 < n" using k by auto
      then have "\<not> Less h (min_child h i n) i" using False by simp
      then have "key h i \<le> key h (min_child h i n)" by (simp add: Less_def)
      also have "\<dots> \<le> key h k" using min_child_least [OF c] k by simp
      finally show "key h i \<le> key h k" .
    qed
    then show ?thesis by (simp add: eq)
  qed
qed

lemma down_loop_moved_or_up:
  assumes B: "heap_except n h i" and n: "n \<le> length h"
  shows "if i < snd (down_loop h i n) then heap_upto n (fst (down_loop h i n))
         else fst (down_loop h i n) = h \<and>
              (\<forall>k. 0 < k \<and> k < n \<and> parent k = i \<longrightarrow> key h i \<le> key h k)"
proof (cases "2 * i + 1 < n \<and> Less h (min_child h i n) i")
  case True
  let ?j = "min_child h i n"
  have ij: "i < ?j" using min_child_cases [of h i n] by auto
  have inv: "heap_except n (Swap h i ?j) ?j \<and> key (Swap h i ?j) (parent ?j) \<le> key (Swap h i ?j) ?j"
    using down_step_inv [of n h i] B n True by simp
  have "heap_upto n (fst (down_loop (Swap h i ?j) ?j n))"
    using down_loop_heap [of n "Swap h i ?j" ?j] inv n by simp
  moreover have "?j \<le> snd (down_loop (Swap h i ?j) ?j n)"
    using down_loop_props [of n "Swap h i ?j" ?j] n by simp
  ultimately show ?thesis using True ij by (simp add: down_loop_step)
next
  case False
  then have eq: "down_loop h i n = (h, i)" by (intro down_loop_stop) auto
  have "\<forall>k. 0 < k \<and> k < n \<and> parent k = i \<longrightarrow> key h i \<le> key h k"
  proof (intro allI impI)
    fix k assume k: "0 < k \<and> k < n \<and> parent k = i"
    then have "k = 2 * i + 1 \<or> k = 2 * i + 2" using parent_child [of k i] by blast
    then have c: "2 * i + 1 < n" using k by auto
    then have "\<not> Less h (min_child h i n) i" using False by simp
    then have "key h i \<le> key h (min_child h i n)" by (simp add: Less_def)
    also have "\<dots> \<le> key h k" using min_child_least [OF c] k by simp
    finally show "key h i \<le> key h k" .
  qed
  then show ?thesis by (simp add: eq)
qed

lemma up_step_inv:
  assumes U: "heap_except n h j" and ch: "\<forall>k. 0 < k \<and> k < n \<and> parent k = j \<longrightarrow> key h j \<le> key h k"
    and j: "0 < j" "j < n" and n: "n \<le> length h" and less: "Less h j (parent j)"
  shows "heap_except n (Swap h (parent j) j) (parent j) \<and>
         (\<forall>k. 0 < k \<and> k < n \<and> parent k = parent j
               \<longrightarrow> key (Swap h (parent j) j) (parent j) \<le> key (Swap h (parent j) j) k)"
proof -
  let ?p = "parent j"
  let ?h' = "Swap h ?p j"
  have pj: "?p < j" using parent_less j by simp
  have pl: "?p < length h" and jl: "j < length h" using pj j n by auto
  have sw: "\<And>k. ?h' ! k = (if k = j then h ! ?p else if k = ?p then h ! j else h ! k)"
    using nth_Swap [OF pl jl] by simp
  have lt: "key h j < key h ?p" using less by (simp add: Less_def)
  have sib: "\<And>k. 0 < k \<Longrightarrow> k < n \<Longrightarrow> k \<noteq> j \<Longrightarrow> parent k = ?p \<Longrightarrow> key h ?p \<le> key h k"
  proof -
    fix k assume k: "0 < k" "k < n" "k \<noteq> j" "parent k = ?p"
    have "parent k \<noteq> j" using k pj by simp
    then show "key h ?p \<le> key h k" using U k unfolding heap_except_def by metis
  qed
  have e: "heap_except n ?h' ?p"
    unfolding heap_except_def
  proof (intro allI impI conjI)
    fix k assume k: "0 < k \<and> k < n" and a: "parent k \<noteq> ?p \<and> k \<noteq> ?p"
    show "key ?h' (parent k) \<le> key ?h' k"
    proof (cases "k = j")
      case True
      then show ?thesis using a by simp
    next
      case False
      show ?thesis
      proof (cases "parent k = j")
        case True
        then have "key h j \<le> key h k" using ch k by simp
        moreover have "key h ?p \<le> key h k"
          using U k True j unfolding heap_except_def by metis
        ultimately show ?thesis using True False a by (simp add: sw)
      next
        case False2: False
        have "key h (parent k) \<le> key h k"
          using U k False False2 unfolding heap_except_def by blast
        then show ?thesis using False False2 a by (simp add: sw)
      qed
    qed
  next
    fix k assume k: "0 < k \<and> k < n" and a: "parent k = ?p \<and> 0 < ?p"
    have ppp: "parent ?p < ?p" using a parent_less by simp
    then have pp: "parent ?p \<noteq> ?p" "parent ?p \<noteq> j" using pj by auto
    have g: "key h (parent ?p) \<le> key h ?p"
      using U a pj j pp unfolding heap_except_def
      by (metis less_trans)
    have kp: "k \<noteq> ?p" using a parent_less [of k] k by auto
    show "key ?h' (parent ?p) \<le> key ?h' k"
    proof (cases "k = j")
      case True
      then show ?thesis using g pp pj by (simp add: sw)
    next
      case False
      then have "key h ?p \<le> key h k" using sib k a by simp
      then show ?thesis using g pp kp False by (simp add: sw)
    qed
  qed
  have "\<forall>k. 0 < k \<and> k < n \<and> parent k = ?p \<longrightarrow> key ?h' ?p \<le> key ?h' k"
  proof (intro allI impI)
    fix k assume k: "0 < k \<and> k < n \<and> parent k = ?p"
    have kp: "k \<noteq> ?p" using parent_less [of k] k by auto
    show "key ?h' ?p \<le> key ?h' k"
    proof (cases "k = j")
      case True
      then show ?thesis using lt pj by (simp add: sw)
    next
      case False
      then have "key h ?p \<le> key h k" using sib k by simp
      then show ?thesis using lt kp False pj by (simp add: sw)
    qed
  qed
  with e show ?thesis by blast
qed

lemma heap_up_heap:
  "heap_except n h j \<Longrightarrow> (\<forall>k. 0 < k \<and> k < n \<and> parent k = j \<longrightarrow> key h j \<le> key h k) \<Longrightarrow>
   j < n \<Longrightarrow> n \<le> length h \<Longrightarrow> heap_upto n (heap_up h j)"
proof (induction h j rule: heap_up_induct)
  case (step h j)
  show ?case
  proof (cases "0 < j \<and> Less h j (parent j)")
    case True
    have pj: "parent j < j" using True parent_less by simp
    have "heap_except n (Swap h (parent j) j) (parent j) \<and>
         (\<forall>k. 0 < k \<and> k < n \<and> parent k = parent j
               \<longrightarrow> key (Swap h (parent j) j) (parent j) \<le> key (Swap h (parent j) j) k)"
      using up_step_inv [of n h j] step.prems True by simp
    then have "heap_upto n (heap_up (Swap h (parent j) j) (parent j))"
      using step.IH True step.prems pj by simp
    then show ?thesis using True by (simp add: heap_up_step)
  next
    case False
    have "heap_upto n h"
    proof (rule heap_uptoI_except [OF step.prems(1)])
      show "0 < j \<and> j < n \<longrightarrow> key h (parent j) \<le> key h j"
        using False by (auto simp: Less_def)
      show "\<And>k. 0 < k \<Longrightarrow> k < n \<Longrightarrow> parent k = j \<Longrightarrow> key h j \<le> key h k"
        using step.prems(2) by simp
    qed
    then show ?thesis using False by (simp add: heap_up_stop)
  qed
qed

lemma heap_upto_take: "heap_upto n h \<Longrightarrow> n \<le> length h \<Longrightarrow> is_heap (take n h)"
  unfolding is_heap_def heap_upto_def
proof (intro allI impI)
  fix k assume a: "\<forall>k. 0 < k \<and> k < n \<longrightarrow> key h (parent k) \<le> key h k" "n \<le> length h"
    and k: "0 < k \<and> k < length (take n h)"
  have "k < n" using k a(2) by simp
  moreover have "parent k < n" using parent_less [of k] k \<open>k < n\<close> by simp
  ultimately show "key (take n h) (parent k) \<le> key (take n h) k"
    using a(1) k by simp
qed

lemma butlast_take_length: "butlast h = take (length h - 1) h"
  by (simp add: butlast_conv_take)

lemma is_heap_heap_Push:
  assumes "is_heap h"
  shows "is_heap (heap_Push h x)"
proof -
  let ?n = "Suc (length h)"
  let ?h = "h @ [x]"
  have e: "heap_except ?n ?h (length h)"
    unfolding heap_except_def
  proof (intro allI impI conjI)
    fix k assume k: "0 < k \<and> k < ?n" and a: "parent k \<noteq> length h \<and> k \<noteq> length h"
    have "k < length h" using k a by simp
    moreover have "parent k < length h" using parent_less [of k] k \<open>k < length h\<close> by simp
    ultimately show "key ?h (parent k) \<le> key ?h k"
      using assms k unfolding is_heap_def heap_upto_def by (simp add: nth_append)
  next
    fix k assume k: "0 < k \<and> k < ?n" and a: "parent k = length h \<and> 0 < length h"
    have "parent k < k" using parent_less [of k] k by simp
    then have False using a k by arith
    then show "key ?h (parent (length h)) \<le> key ?h k" ..
  qed
  have c: "\<forall>k. 0 < k \<and> k < ?n \<and> parent k = length h \<longrightarrow> key ?h (length h) \<le> key ?h k"
  proof (intro allI impI)
    fix k assume k: "0 < k \<and> k < ?n \<and> parent k = length h"
    have "parent k < k" using parent_less [of k] k by simp
    then have False using k by arith
    then show "key ?h (length h) \<le> key ?h k" ..
  qed
  have "heap_upto ?n (heap_up ?h (length h))"
    using heap_up_heap [OF e c] by simp
  moreover have "length (heap_up ?h (length h)) = ?n"
    using heap_up_props [of "length h" ?h] by simp
  ultimately show ?thesis by (simp add: heap_Push_def is_heap_def)
qed

lemma is_heap_heap_Pop:
  assumes "is_heap h" and "heap_Pop h = Inr (h', e)"
  shows "is_heap h'"
proof -
  have ne: "h \<noteq> []" using assms(2) by (auto simp: heap_Pop_def split: if_splits)
  define n where "n = length h - 1"
  let ?n = n
  let ?h1 = "Swap h 0 ?n"
  let ?h2 = "fst (down_loop ?h1 0 ?n)"
  have n: "?n < length h" and z: "0 < length h" using ne by (cases h, auto simp: n_def)+
  have sw: "\<And>k. ?h1 ! k = (if k = ?n then h ! 0 else if k = 0 then h ! ?n else h ! k)"
    using nth_Swap [OF z n] by simp
  have e: "heap_except ?n ?h1 0"
    unfolding heap_except_def
  proof (intro allI impI conjI)
    fix k assume k: "0 < k \<and> k < ?n" and a: "parent k \<noteq> 0 \<and> k \<noteq> 0"
    have "parent k < k" using parent_less [of k] k by simp
    then have "parent k \<noteq> ?n" "k \<noteq> ?n" using k by auto
    moreover have "k < length h" using k n by arith
    then have "key h (parent k) \<le> key h k"
      using assms(1) k unfolding is_heap_def heap_upto_def by simp
    ultimately show "key ?h1 (parent k) \<le> key ?h1 k" using a by (simp add: sw)
  next
    fix k assume "parent k = 0 \<and> (0::nat) < 0"
    then show "key ?h1 (parent 0) \<le> key ?h1 k" by simp
  qed
  have "heap_upto ?n ?h2"
    using down_loop_heap [OF e] n by simp
  moreover have l: "length ?h2 = length h"
    using down_loop_props [of ?n ?h1 0] n by simp
  ultimately have "is_heap (take ?n ?h2)"
    using heap_upto_take [of ?n ?h2] n by simp
  moreover have "heap_Pop h = Inr (butlast ?h2, last ?h2)"
    using ne by (simp add: heap_Pop_def heap_down_def Let_def n_def split: prod.splits)
  then have "h' = butlast ?h2" using assms(2) by simp
  ultimately show ?thesis using l by (simp add: butlast_take_length n_def)
qed

lemma is_heap_heap_Remove:
  assumes h: "is_heap h" and r: "heap_Remove h i = Inr (h', e)"
  shows "is_heap h'"
proof -
  have il: "i < length h" using r by (auto simp: heap_Remove_def split: if_splits)
  define n where "n = length h - 1"
  let ?n = n
  have nl: "n \<le> length h" by (simp add: n_def)
  show ?thesis
  proof (cases "?n = i")
    case True
    then have "heap_Remove h i = Inr (butlast h, last h)"
      using il by (auto simp: heap_Remove_def Let_def n_def)
    then have "h' = butlast h" using r by simp
    moreover have "heap_upto ?n h"
      using h nl unfolding is_heap_def heap_upto_def by auto
    then have "is_heap (take ?n h)" using nl by (rule heap_upto_take)
    ultimately show ?thesis by (simp add: butlast_take_length n_def)
  next
    case False
    let ?h1 = "Swap h i ?n"
    let ?h2 = "fst (down_loop ?h1 i ?n)"
    let ?h3 = "if \<not> (i < snd (down_loop ?h1 i ?n)) then heap_up ?h2 i else ?h2"
    have n: "?n < length h" and i: "i < ?n" using il False by (auto simp: n_def)
    have sw: "\<And>k. ?h1 ! k = (if k = ?n then h ! i else if k = i then h ! ?n else h ! k)"
      using nth_Swap [OF il n] by simp
    have hp: "\<And>k. 0 < k \<Longrightarrow> k < length h \<Longrightarrow> key h (parent k) \<le> key h k"
      using h unfolding is_heap_def heap_upto_def by simp
    have e: "heap_except ?n ?h1 i"
      unfolding heap_except_def
    proof (intro allI impI conjI)
      fix k assume k: "0 < k \<and> k < ?n" and a: "parent k \<noteq> i \<and> k \<noteq> i"
      have "parent k < k" using parent_less [of k] k by simp
      then have "parent k \<noteq> ?n" "k \<noteq> ?n" using k by auto
      moreover have "k < length h" using k n by arith
      then have "key h (parent k) \<le> key h k" using hp k by simp
      ultimately show "key ?h1 (parent k) \<le> key ?h1 k" using a by (simp add: sw)
    next
      fix k assume k: "0 < k \<and> k < ?n" and a: "parent k = i \<and> 0 < i"
      have pk: "parent k < k" using parent_less k by simp
      have pi: "parent i < i" using parent_less a by simp
      have "key h (parent i) \<le> key h i" using hp a il by simp
      also have "key h i \<le> key h k" using hp [of k] k a n by auto
      finally have "key h (parent i) \<le> key h k" .
      moreover have "k \<noteq> i" "k \<noteq> ?n" "parent i \<noteq> i" "parent i \<noteq> ?n"
        using pk pi a k i by auto
      ultimately show "key ?h1 (parent i) \<le> key ?h1 k" by (simp add: sw)
    qed
    have l2: "length ?h2 = length h"
      using down_loop_props [of ?n ?h1 i] n by simp
    have up3: "heap_upto ?n ?h3 \<and> length ?h3 = length h"
    proof (cases "i < snd (down_loop ?h1 i ?n)")
      case True
      then show ?thesis using down_loop_moved_or_up [OF e] n l2 by simp
    next
      case False
      then have same: "?h2 = ?h1"
        and c: "\<forall>k. 0 < k \<and> k < ?n \<and> parent k = i \<longrightarrow> key ?h1 i \<le> key ?h1 k"
        using down_loop_moved_or_up [OF e] n by auto
      have "heap_upto ?n (heap_up ?h1 i)"
        using heap_up_heap [OF e c i] n by simp
      moreover have "length (heap_up ?h1 i) = length h"
        using heap_up_props [of i ?h1] il by simp
      ultimately show ?thesis using False same by simp
    qed
    then have "is_heap (take ?n ?h3)"
      using heap_upto_take [of ?n ?h3] n by simp
    moreover have "heap_Remove h i = Inr (butlast ?h3, last ?h3)"
      using il False by (auto simp: heap_Remove_def heap_down_def Let_def n_def split: prod.splits)
    then have "h' = butlast ?h3" using r by simp
    ultimately show ?thesis using up3 by (simp add: butlast_take_length n_def)
  qed
qed

lemma is_heap_head_least:
  assumes "is_heap h" and "k < length h"
  shows "key h 0 \<le> key h k"
  using assms(2)
proof (induction k rule: less_induct)
  case (less k)
  show ?case
  proof (cases "k = 0")
    case True
    then show ?thesis by simp
  next
    case False
    then have pk: "parent k < k" using parent_less by simp
    then have "key h 0 \<le> key h (parent k)" using less by simp
    also have "\<dots> \<le> key h k"
      using assms(1) False less.prems unfolding is_heap_def heap_upto_def by simp
    finally show ?thesis .
  qed
qed

lemma heap_resetTimerLocked [simp]: "heap (resetTimerLocked s now) = heap s"
  by (simp add: resetTimerLocked_def Let_def split: option.splits)

lemma removeLockedByName_is_heap:
  "is_heap h \<Longrightarrow> removeLockedByName h name = Inr h' \<Longrightarrow> is_heap h'"
  by (auto simp: removeLockedByName_def split: option.splits sum.splits
      dest: is_heap_heap_Remove)

lemma AddJob_queue:
  assumes "queue_inv s"
  shows "\<exists>s'. AddJob s name sched now = Inr s' \<and> queue_inv s' \<and>
           mset (heap s') = add_mset \<lparr>jobName = name, schedule = sched, nextRun = sched now\<rparr>
                              (filter_mset (\<lambda>e. jobName e \<noteq> name) (mset (heap s)))"
proof -
  from assms have h: "is_heap (heap s)" and d: "distinct (map jobName (heap s))"
    by (auto simp: queue_inv_def)
  from removeLockedByName_distinct [OF d, of name] obtain h' where
    r: "removeLockedByName (heap s) name = Inr h'"
    and m: "mset h' = filter_mset (\<lambda>e. jobName e \<noteq> name) (mset (heap s))"
    and d': "distinct (map jobName h')" and notin: "name \<notin> jobName ` set h'" by blast
  let ?e = "\<lparr>jobName = name, schedule = sched, nextRun = sched now\<rparr>"
  let ?s' = "resetTimerLocked (s\<lparr>heap := heap_Push h' ?e\<rparr>) now"
  have eq: "AddJob s name sched now = Inr ?s'"
    using r by (simp add: AddJob_def NextTime_def)
  have hp: "is_heap (heap_Push h' ?e)"
    using removeLockedByName_is_heap [OF h r] by (rule is_heap_heap_Push)
  have "mset (map jobName (heap_Push h' ?e)) = mset (map jobName (?e # h'))"
    by (simp add: heap_Push_mset)
  then have "distinct (map jobName (heap_Push h' ?e)) \<longleftrightarrow> distinct (map jobName (?e # h'))"
    by (rule mset_eq_imp_distinct_iff)
  then have dp: "distinct (map jobName (heap_Push h' ?e))"
    using d' notin by simp
  show ?thesis
    using eq hp dp m by (simp add: queue_inv_def heap_Push_mset)
qed

lemma RemoveJob_queue:
  assumes "queue_inv s"
  shows "\<exists>s'. RemoveJob s name now = Inr s' \<and> queue_inv s' \<and>
           mset (heap s') = filter_mset (\<lambda>e. jobName e \<noteq> name) (mset (heap s)) \<and>
           (name \<notin> jobName ` set (heap s) \<longrightarrow> heap s' = heap s)"
proof -
  from assms have h: "is_heap (heap s)" and d: "distinct (map jobName (heap s))"
    by (auto simp: queue_inv_def)
  from removeLockedByName_distinct [OF d, of name] obtain h' where
    r: "removeLockedByName (heap s) name = Inr h'"
    and m: "mset h' = filter_mset (\<lambda>e. jobName e \<noteq> name) (mset (heap s))"
    and d': "distinct (map jobName h')" by blast
  have "name \<notin> jobName ` set (heap s) \<longrightarrow> h' = heap s"
    using r removeLockedByName_absent [of name "heap s"] by auto
  then show ?thesis
    using r m d' removeLockedByName_is_heap [OF h r]
    by (simp add: RemoveJob_def queue_inv_def)
qed

lemma timer_case_queue:
  assumes "queue_inv s"
  shows "\<exists>s' fired. timer_case s now = Inr (s', fired) \<and> queue_inv s' \<and>
           (\<forall>name. fired = Some name \<longrightarrow>
              heap s \<noteq> [] \<and> name = jobName (heap s ! 0) \<and> nextRun (heap s ! 0) \<le> now \<and>
              (\<forall>e \<in> set (heap s). nextRun (heap s ! 0) \<le> nextRun e))"
proof (cases "heap s = [] \<or> nextRun (heap s ! 0) > now")
  case True
  then show ?thesis using assms by (auto simp: timer_case_def queue_inv_def Let_def)
next
  case False
  then have ne: "heap s \<noteq> []" and due: "nextRun (heap s ! 0) \<le> now" by auto
  from assms have h: "is_heap (heap s)" and d: "distinct (map jobName (heap s))"
    by (auto simp: queue_inv_def)
  from heap_Pop_props [OF ne] obtain h1 where
    p: "heap_Pop (heap s) = Inr (h1, heap s ! 0)"
    and m: "add_mset (heap s ! 0) (mset h1) = mset (heap s)" by blast
  let ?e = "heap s ! 0"
  let ?e1 = "?e\<lparr>nextRun := NextTime (schedule ?e) now\<rparr>"
  let ?s' = "resetTimerLocked (s\<lparr>heap := heap_Push h1 ?e1\<rparr>) now"
  have eq: "timer_case s now = Inr (?s', Some (jobName ?e))"
    using ne due p by (simp add: timer_case_def Let_def)
  have hp: "is_heap (heap_Push h1 ?e1)"
    using is_heap_heap_Pop [OF h p] by (rule is_heap_heap_Push)
  have "mset (map jobName (heap_Push h1 ?e1)) = image_mset jobName (add_mset ?e (mset h1))"
    by (simp add: heap_Push_mset)
  also have "\<dots> = mset (map jobName (heap s))" by (simp only: m mset_map)
  finally have "distinct (map jobName (heap_Push h1 ?e1)) \<longleftrightarrow> distinct (map jobName (heap s))"
    by (rule mset_eq_imp_distinct_iff)
  then have dp: "distinct (map jobName (heap_Push h1 ?e1))" using d by simp
  have least: "\<forall>e \<in> set (heap s). nextRun ?e \<le> nextRun e"
    using is_heap_head_least [OF h] by (auto simp: in_set_conv_nth)
  show ?thesis
    using eq hp dp ne due least by (simp add: queue_inv_def)
qed

lemma loop_pass_queue:
  assumes "queue_inv s"
  shows "\<exists>s' fired. loop_pass s ev = Inr (s', fired) \<and> queue_inv s' \<and>
           done_closed s' = done_closed s \<and> wg s' = wg s"
proof (cases ev)
  case ResetSignal
  then show ?thesis using assms by (simp add: loop_pass_def queue_inv_def)
next
  case (TimerFired now)
  from timer_case_queue [OF assms, of now] obtain s' fired where
    t: "timer_case s now = Inr (s', fired)" and q: "queue_inv s'" by blast
  have "done_closed s' = done_closed s \<and> wg s' = wg s"
    using t by (auto simp: timer_case_def resetTimerLocked_def Let_def
        split: if_splits sum.splits option.splits)
  then show ?thesis using TimerFired t q by (simp add: loop_pass_def)
qed

lemma reachable_queue_inv: "reachable s \<Longrightarrow> queue_inv s"
proof (induction rule: reachable.induct)
  case reach_new
  show ?case by (simp add: NewScheduler_def queue_inv_def is_heap_def heap_upto_def)
next
  case (reach_add s name sched now s')
  then show ?case using AddJob_queue [of s name sched now] by auto
next
  case (reach_remove s name now s')
  then show ?case using RemoveJob_queue [of s name now] by auto
next
  case (reach_start s now)
  then show ?case by (simp add: Start_def queue_inv_def)
next
  case (reach_close s s')
  then show ?case by (auto simp: close_done_def queue_inv_def split: if_splits)
next
  case (reach_done s)
  then show ?case by (simp add: done_case_def queue_inv_def)
next
  case (reach_pass s ev s' fired)
  then show ?case using loop_pass_queue [of s ev] by auto
qed

subsection \<open>The sample queue\<close>

lemma heap_up_two: "heap_up [a, b] (Suc 0) = (if nextRun b < nextRun a then [b, a] else [a, b])"
  by (simp add: heap_up.simps [of _ "Suc 0"] heap_up.simps [of _ 0] Less_def Swap_def Let_def)

lemma heap_up_one: "heap_up [a] 0 = [a]"
  by (simp add: heap_up.simps [of _ 0])

lemma down_loop_one: "down_loop h 0 (Suc 0) = (h, 0)"
  by (simp add: down_loop.simps [of _ 0])

lemma sample_queue_b_added:
  "AddJob (Start NewScheduler 1000000000) ''b'' sample_every_minute 1000000000 = Inr sample_queue_b"
  by (simp add: AddJob_def Start_def NewScheduler_def removeLockedByName_def heap_Push_def
      heap_up_one resetTimerLocked_def NextTime_def sample_every_minute_def sample_queue_b_def
      sample_entry_def Let_def)

lemma sample_queue_ba_added:
  "AddJob sample_queue_b ''a'' sample_every_minute 2000000000 = Inr sample_queue_ba"
  by (simp add: AddJob_def removeLockedByName_def heap_Push_def heap_up_two resetTimerLocked_def
      NextTime_def sample_every_minute_def sample_queue_b_def sample_queue_ba_def
      sample_entry_def Let_def)

lemma sample_queue_fires_b:
  "timer_case sample_queue_ba 60000000000 = Inr (sample_queue_fired_once, Some ''b'')"
  by (simp add: timer_case_def heap_Pop_def heap_down_def down_loop_one Swap_def heap_Push_def
      heap_up_two resetTimerLocked_def NextTime_def sample_every_minute_def
      sample_queue_fired_once_def sample_queue_ba_def sample_entry_def Let_def)

lemma sample_queue_fires_a:
  "timer_case sample_queue_fired_once 60000000000 = Inr (sample_queue_fired_twice, Some ''a'')"
  by (simp add: timer_case_def heap_Pop_def heap_down_def down_loop_one Swap_def heap_Push_def
      heap_up_two resetTimerLocked_def NextTime_def sample_every_minute_def
      sample_queue_fired_once_def sample_queue_fired_twice_def sample_entry_def Let_def)

lemma reachable_sample_queue_ba: "reachable sample_queue_ba"
  using reach_add [OF reach_add [OF reach_start [OF reach_new] sample_queue_b_added]
      sample_queue_ba_added] .

subsection \<open>Order of firing\<close>

text \<open>
  C2, as amended (the queue is ordered by \<open>nextRun\<close> alone).  \<open>Less\<close> never holds
  between two entries with equal \<open>nextRun\<close>, whatever their names.  In every
  reachable scheduler state a pass through the timer case returns without a panic,
  and when it fires a job, that job's entry was due and no entry of the queue had an
  earlier \<open>nextRun\<close>.
\<close>

theorem timer_case_fires_least_nextRun:
  assumes "reachable s"
  shows "(\<forall>h i j. nextRun (h ! i) = nextRun (h ! j) \<longrightarrow> \<not> Less h i j) \<and>
         (\<exists>s' fired. timer_case s now = Inr (s', fired) \<and> reachable s' \<and>
            (\<forall>name. fired = Some name \<longrightarrow>
               (\<exists>e \<in> set (heap s). jobName e = name \<and> nextRun e \<le> now \<and>
                   (\<forall>e' \<in> set (heap s). nextRun e \<le> nextRun e'))))"
proof -
  from timer_case_queue [OF reachable_queue_inv [OF assms], of now]
  obtain s' fired where t: "timer_case s now = Inr (s', fired)"
    and f: "\<forall>name. fired = Some name \<longrightarrow>
              heap s \<noteq> [] \<and> name = jobName (heap s ! 0) \<and> nextRun (heap s ! 0) \<le> now \<and>
              (\<forall>e \<in> set (heap s). nextRun (heap s ! 0) \<le> nextRun e)"
    by blast
  have "loop_pass s (TimerFired now) = Inr (s', fired)" using t by (simp add: loop_pass_def)
  with assms have r: "reachable s'" by (rule reach_pass)
  have "\<forall>name. fired = Some name \<longrightarrow>
          (\<exists>e \<in> set (heap s). jobName e = name \<and> nextRun e \<le> now \<and>
              (\<forall>e' \<in> set (heap s). nextRun e \<le> nextRun e'))"
  proof (intro allI impI)
    fix name assume "fired = Some name"
    with f have "heap s \<noteq> []" "name = jobName (heap s ! 0)" "nextRun (heap s ! 0) \<le> now"
      "\<forall>e \<in> set (heap s). nextRun (heap s ! 0) \<le> nextRun e" by auto
    moreover from this have "heap s ! 0 \<in> set (heap s)" by simp
    ultimately show "\<exists>e \<in> set (heap s). jobName e = name \<and> nextRun e \<le> now \<and>
              (\<forall>e' \<in> set (heap s). nextRun e \<le> nextRun e')" by blast
  qed
  with t r show ?thesis by (auto simp: Less_def)
qed

theorem timer_case_fires_least_nextRun_witness:
  "reachable sample_queue_ba \<and>
   timer_case sample_queue_ba 60000000000 = Inr (sample_queue_fired_once, Some ''b'') \<and>
   (\<exists>e \<in> set (heap sample_queue_ba). jobName e = ''b'' \<and> nextRun e \<le> 60000000000 \<and>
       (\<forall>e' \<in> set (heap sample_queue_ba). nextRun e \<le> nextRun e'))"
  using timer_case_fires_least_nextRun [OF reachable_sample_queue_ba, of 60000000000]
    reachable_sample_queue_ba sample_queue_fires_b
  by simp

text \<open>
  C2 as stated fails: \<open>b\<close> and then \<open>a\<close> are added with the same schedule and get the
  same \<open>nextRun\<close>; at that instant the loop fires \<open>b\<close> first and \<open>a\<close> second,
  although \<open>a\<close> precedes \<open>b\<close> in the order of names.
\<close>

theorem equal_nextRun_fired_in_heap_order_counterexample:
  "AddJob (Start NewScheduler 1000000000) ''b'' sample_every_minute 1000000000 = Inr sample_queue_b \<and>
   AddJob sample_queue_b ''a'' sample_every_minute 2000000000 = Inr sample_queue_ba \<and>
   map nextRun (heap sample_queue_ba) = [60000000000, 60000000000] \<and>
   timer_case sample_queue_ba 60000000000 = Inr (sample_queue_fired_once, Some ''b'') \<and>
   timer_case sample_queue_fired_once 60000000000 = Inr (sample_queue_fired_twice, Some ''a'') \<and>
   ''a'' < ''b''"
  using sample_queue_b_added sample_queue_ba_added sample_queue_fires_b sample_queue_fires_a
  by (simp add: sample_queue_ba_def sample_entry_def)

subsection \<open>One entry per job name\<close>

text \<open>
  C9 (each job name at most once in the queue).  In every reachable scheduler
  state the names of the queue's entries are distinct.  \<open>RemoveJob\<close> returns and
  leaves exactly the entries with another name; when no entry has the name, the
  queue is unchanged.  \<open>AddJob\<close> returns, and the new queue holds the entries with
  another name and one new entry for the name, so its names are distinct again.
\<close>

theorem schedule_queue_names_unique:
  assumes "reachable s"
  shows "distinct (map jobName (heap s)) \<and>
         (\<exists>s'. RemoveJob s name now = Inr s' \<and>
            mset (heap s') = filter_mset (\<lambda>e. jobName e \<noteq> name) (mset (heap s)) \<and>
            (name \<notin> jobName ` set (heap s) \<longrightarrow> heap s' = heap s)) \<and>
         (\<exists>s'. AddJob s name sched now = Inr s' \<and>
            distinct (map jobName (heap s')) \<and>
            mset (heap s') = add_mset \<lparr>jobName = name, schedule = sched, nextRun = sched now\<rparr>
                               (filter_mset (\<lambda>e. jobName e \<noteq> name) (mset (heap s))))"
proof -
  have q: "queue_inv s" using assms by (rule reachable_queue_inv)
  from RemoveJob_queue [OF q, of name now] AddJob_queue [OF q, of name sched now] q
  show ?thesis unfolding queue_inv_def by blast
qed

theorem schedule_queue_names_unique_witness:
  "reachable sample_queue_ba \<and>
   distinct (map jobName (heap sample_queue_ba)) \<and>
   ''c'' \<notin> jobName ` set (heap sample_queue_ba) \<and>
   (\<exists>s'. RemoveJob sample_queue_ba ''c'' 3000000000 = Inr s' \<and> heap s' = heap sample_queue_ba) \<and>
   (\<exists>s'. AddJob sample_queue_ba ''b'' sample_every_minute 61000000000 = Inr s' \<and>
      distinct (map jobName (heap s')) \<and>
      mset (heap s') = {#sample_entry ''b'' 120000000000, sample_entry ''a'' 60000000000#})"
proof -
  have c: "''c'' \<notin> jobName ` set (heap sample_queue_ba)"
    by (simp add: sample_queue_ba_def sample_entry_def)
  have f: "filter_mset (\<lambda>e. jobName e \<noteq> ''b'') (mset (heap sample_queue_ba))
             = {#sample_entry ''a'' 60000000000#}"
    by (simp add: sample_queue_ba_def sample_entry_def)
  have e: "\<lparr>jobName = ''b'', schedule = sample_every_minute,
            nextRun = sample_every_minute 61000000000\<rparr> = sample_entry ''b'' 120000000000"
    by (simp add: sample_entry_def sample_every_minute_def)
  from schedule_queue_names_unique [OF reachable_sample_queue_ba, where name = "''c''" and now = 3000000000]
  have 1: "distinct (map jobName (heap sample_queue_ba))"
    and 2: "\<exists>s'. RemoveJob sample_queue_ba ''c'' 3000000000 = Inr s' \<and> heap s' = heap sample_queue_ba"
    using c by auto
  from schedule_queue_names_unique [OF reachable_sample_queue_ba, where name = "''b''"
      and sched = sample_every_minute and now = 61000000000]
  have 3: "\<exists>s'. AddJob sample_queue_ba ''b'' sample_every_minute 61000000000 = Inr s' \<and>
      distinct (map jobName (heap s')) \<and>
      mset (heap s') = {#sample_entry ''b'' 120000000000, sample_entry ''a'' 60000000000#}"
    unfolding f e by blast
  show ?thesis using reachable_sample_queue_ba 1 2 3 c by blast
qed

subsection \<open>Stopping the scheduler\<close>

lemma live_update:
  "i < length gs \<Longrightarrow>
   live (gs[i := g]) + (if gs ! i \<noteq> Returned then 1 else 0)
     = live gs + (if g \<noteq> Returned then 1 else 0)"
proof (induction gs arbitrary: i)
  case Nil
  then show ?case by simp
next
  case (Cons x xs)
  show ?case
  proof (cases i)
    case 0
    then show ?thesis by (simp add: live_def)
  next
    case (Suc k)
    then have "k < length xs" using Cons.prems by simp
    from Cons.IH [OF this] show ?thesis using Suc by (auto simp: live_def split: if_splits)
  qed
qed

lemma live_pos: "i < length gs \<Longrightarrow> gs ! i \<noteq> Returned \<Longrightarrow> 0 < live gs"
  using nth_mem [of i gs] by (auto simp: live_def filter_empty_conv)

lemma live_zero: "live gs = 0 \<Longrightarrow> \<forall>g \<in> set gs. g = Returned"
  by (auto simp: live_def filter_empty_conv)

lemma run_step_inv:
  assumes q: "queue_inv (scheduler c)" and w: "wg (scheduler c) = live (goroutines c)"
    and r: "reachable (scheduler c)"
  shows "\<exists>c'. run_step c a = Inr c' \<and> wg (scheduler c') = live (goroutines c') \<and>
           reachable (scheduler c') \<and>
           done_closed (scheduler c') = done_closed (scheduler c) \<and>
           length (goroutines c') = length (goroutines c)"
proof (cases a)
  case (TakeCase i ev)
  show ?thesis
  proof (cases "i < length (goroutines c) \<and> goroutines c ! i = AtSelect \<and>
      (case ev of ResetSignal \<Rightarrow> reset_pending (scheduler c) | TimerFired now \<Rightarrow> True)")
    case True
    from loop_pass_queue [OF q, of ev] obtain s' fired where
      p: "loop_pass (scheduler c) ev = Inr (s', fired)"
      and k: "done_closed s' = done_closed (scheduler c)" "wg s' = wg (scheduler c)" by blast
    let ?g = "case fired of Some name \<Rightarrow> InFire name | None \<Rightarrow> AtSelect"
    have g: "?g \<noteq> Returned" by (cases fired) simp_all
    have "live ((goroutines c)[i := ?g]) = live (goroutines c)"
      using live_update [of i "goroutines c" ?g] True g by simp
    moreover have "reachable s'" using r p by (rule reach_pass)
    ultimately show ?thesis using TakeCase True p k w by (simp add: run_step_def)
  next
    case False
    then show ?thesis using TakeCase w r by (auto simp: run_step_def)
  qed
next
  case (TakeDone i)
  show ?thesis
  proof (cases "i < length (goroutines c) \<and> goroutines c ! i = AtSelect \<and> done_closed (scheduler c)")
    case True
    have u: "live ((goroutines c)[i := Returned]) + 1 = live (goroutines c)"
      using live_update [of i "goroutines c" Returned] True by simp
    then have pos: "0 < wg (scheduler c)" using w by simp
    have "reachable (done_case (scheduler c))" using r True pos by (simp add: reach_done)
    then show ?thesis using TakeDone True u w by (simp add: run_step_def done_case_def)
  next
    case False
    then show ?thesis using TakeDone w r by (auto simp: run_step_def)
  qed
next
  case (FireReturns i)
  show ?thesis
  proof (cases "i < length (goroutines c) \<and> (\<exists>name. goroutines c ! i = InFire name)")
    case True
    then obtain name where n: "goroutines c ! i = InFire name" by blast
    have "live ((goroutines c)[i := AtSelect]) = live (goroutines c)"
      using live_update [of i "goroutines c" AtSelect] True n by simp
    then show ?thesis using FireReturns True n w r by (simp add: run_step_def)
  next
    case False
    then show ?thesis using FireReturns w r
      by (auto simp: run_step_def split: goroutine.splits)
  qed
qed

lemma wg_resetTimerLocked [simp]: "wg (resetTimerLocked s now) = wg s"
  by (simp add: resetTimerLocked_def Let_def split: option.splits)

lemma reachable_runtime_inv:
  "reachable_runtime c \<Longrightarrow>
   reachable (scheduler c) \<and> wg (scheduler c) = live (goroutines c)"
proof (induction rule: reachable_runtime.induct)
  case rt_new
  have "reachable (scheduler NewRuntime)" by (simp add: NewRuntime_def reach_new)
  moreover have "wg (scheduler NewRuntime) = live (goroutines NewRuntime)"
    by (simp add: NewRuntime_def NewScheduler_def live_def)
  ultimately show ?case by simp
next
  case (rt_add c name sched now s')
  then have "reachable s'" using reach_add by blast
  moreover have "wg s' = wg (scheduler c)"
    using rt_add.hyps(2) by (auto simp: AddJob_def Let_def split: sum.splits)
  ultimately show ?case using rt_add.IH by simp
next
  case (rt_remove c name now s')
  then have "reachable s'" using reach_remove by blast
  moreover have "wg s' = wg (scheduler c)"
    using rt_remove.hyps(2) by (auto simp: RemoveJob_def split: sum.splits)
  ultimately show ?case using rt_remove.IH by simp
next
  case (rt_start c now)
  then have "reachable (Start (scheduler c) now)" by (simp add: reach_start)
  moreover have "wg (Start (scheduler c) now) = live (goroutines c @ [AtSelect])"
    using rt_start.IH by (simp add: Start_def live_def)
  ultimately show ?case by (simp add: Start_go_def)
next
  case (rt_close c s')
  then have "reachable s'" using reach_close by blast
  moreover have "wg s' = wg (scheduler c)"
    using rt_close.hyps(2) by (auto simp: close_done_def split: if_splits)
  ultimately show ?case using rt_close.IH by simp
next
  case (rt_step c a c')
  then have r: "reachable (scheduler c)" and w: "wg (scheduler c) = live (goroutines c)"
    by simp_all
  from run_step_inv [OF reachable_queue_inv [OF r] w r, of a] rt_step.hyps(2)
  show ?case by auto
qed

lemma run_step_returns:
  assumes "reachable_runtime c"
  shows "\<exists>c'. run_step c a = Inr c' \<and> reachable_runtime c' \<and>
           done_closed (scheduler c') = done_closed (scheduler c) \<and>
           length (goroutines c') = length (goroutines c)"
proof -
  have r: "reachable (scheduler c)" and w: "wg (scheduler c) = live (goroutines c)"
    using reachable_runtime_inv [OF assms] by simp_all
  from run_step_inv [OF reachable_queue_inv [OF r] w r, of a] obtain c' where
    s: "run_step c a = Inr c'"
    and k: "done_closed (scheduler c') = done_closed (scheduler c)"
      "length (goroutines c') = length (goroutines c)" by blast
  have "reachable_runtime c'" using assms s by (rule rt_step)
  then show ?thesis using s k by blast
qed

lemma run_step_in_fire:
  assumes "run_step c a = Inr c'" and "a \<noteq> FireReturns i"
    and "i < length (goroutines c)" and "goroutines c ! i = InFire name"
  shows "goroutines c' ! i = InFire name"
  using assms
  by (cases a)
     (auto simp: run_step_def nth_list_update split: if_splits sum.splits goroutine.splits)

lemma wg_Wait_returned:
  "reachable_runtime c \<Longrightarrow> wg_Wait c acts = Inr (Some c') \<Longrightarrow>
   reachable_runtime c' \<and> wg (scheduler c') = 0 \<and>
   done_closed (scheduler c') = done_closed (scheduler c)"
proof (induction acts arbitrary: c)
  case Nil
  then show ?case by (simp split: if_splits)
next
  case (Cons a acts)
  show ?case
  proof (cases "wg (scheduler c) = 0")
    case True
    then show ?thesis using Cons.prems by simp
  next
    case False
    from run_step_returns [OF Cons.prems(1), of a] obtain c1 where
      s: "run_step c a = Inr c1" and r: "reachable_runtime c1"
      and d: "done_closed (scheduler c1) = done_closed (scheduler c)" by blast
    have "wg_Wait c1 acts = Inr (Some c')" using Cons.prems(2) False s by simp
    from Cons.IH [OF r this] show ?thesis using d by simp
  qed
qed

lemma wg_Wait_no_panic:
  "reachable_runtime c \<Longrightarrow> \<exists>r. wg_Wait c acts = Inr r"
proof (induction acts arbitrary: c)
  case Nil
  then show ?case by simp
next
  case (Cons a acts)
  from run_step_returns [OF Cons.prems, of a] obtain c1 where
    s: "run_step c a = Inr c1" and r: "reachable_runtime c1" by blast
  from Cons.IH [OF r] show ?case using s by simp
qed

lemma wg_Wait_blocked:
  "reachable_runtime c \<Longrightarrow> i < length (goroutines c) \<Longrightarrow> goroutines c ! i = InFire name \<Longrightarrow>
   FireReturns i \<notin> set acts \<Longrightarrow> wg_Wait c acts = Inr None"
proof (induction acts arbitrary: c)
  case Nil
  have "wg (scheduler c) = live (goroutines c)" using reachable_runtime_inv [OF Nil(1)] by simp
  moreover have "0 < live (goroutines c)" using live_pos [OF Nil(2)] Nil(3) by simp
  ultimately show ?case by simp
next
  case (Cons a acts)
  have "wg (scheduler c) = live (goroutines c)"
    using reachable_runtime_inv [OF Cons.prems(1)] by simp
  moreover have "0 < live (goroutines c)" using live_pos [OF Cons.prems(2)] Cons.prems(3) by simp
  ultimately have nz: "wg (scheduler c) \<noteq> 0" by simp
  from run_step_returns [OF Cons.prems(1), of a] obtain c1 where
    s: "run_step c a = Inr c1" and r: "reachable_runtime c1"
    and l: "length (goroutines c1) = length (goroutines c)" by blast
  have ne: "a \<noteq> FireReturns i" and rest: "FireReturns i \<notin> set acts" using Cons.prems(4) by auto
  have g: "goroutines c1 ! i = InFire name"
    using run_step_in_fire [OF s ne Cons.prems(2) Cons.prems(3)] .
  have i: "i < length (goroutines c1)" using l Cons.prems(2) by simp
  from Cons.IH [OF r i g rest] show ?case using nz s by simp
qed

text \<open>
  \<open>Stop\<close> does return when the callbacks do: if every goroutine in turn comes back
  from its callback, if it is in one, and takes the case \<open>done\<close>, the wait ends.
\<close>

lemma run_step_retire:
  assumes r: "reachable_runtime c" and d: "done_closed (scheduler c)"
    and k: "k < length (goroutines c)"
  shows "\<exists>c1 c2. run_step c (FireReturns k) = Inr c1 \<and> run_step c1 (TakeDone k) = Inr c2 \<and>
           reachable_runtime c2 \<and> done_closed (scheduler c2) \<and>
           goroutines c2 = (goroutines c)[k := Returned]"
proof -
  from run_step_returns [OF r, of "FireReturns k"] obtain c1 where
    s1: "run_step c (FireReturns k) = Inr c1" and r1: "reachable_runtime c1"
    and d1: "done_closed (scheduler c1) = done_closed (scheduler c)" by blast
  from run_step_returns [OF r1, of "TakeDone k"] obtain c2 where
    s2: "run_step c1 (TakeDone k) = Inr c2" and r2: "reachable_runtime c2"
    and d2: "done_closed (scheduler c2) = done_closed (scheduler c1)" by blast
  have g1: "goroutines c1 = (case goroutines c ! k of
              InFire name \<Rightarrow> (goroutines c)[k := AtSelect] | _ \<Rightarrow> goroutines c)"
    using s1 k by (auto simp: run_step_def split: goroutine.splits)
  have "goroutines c2 = (goroutines c)[k := Returned]"
  proof (cases "goroutines c ! k")
    case AtSelect
    then show ?thesis using s2 g1 k d d1 by (auto simp: run_step_def)
  next
    case (InFire name)
    then show ?thesis using s2 g1 k d d1 by (auto simp: run_step_def)
  next
    case Returned
    then have "(goroutines c)[k := Returned] = goroutines c" by (metis list_update_id)
    then show ?thesis using s2 g1 Returned by (auto simp: run_step_def split: if_splits)
  qed
  then show ?thesis using s1 s2 r2 d d1 d2 by simp
qed

lemma wg_Wait_returns:
  assumes "reachable_runtime c" and "done_closed (scheduler c)"
    and "k \<le> length (goroutines c)" and "\<forall>j<k. goroutines c ! j = Returned"
  shows "\<exists>c'. wg_Wait c (concat (map (\<lambda>i. [FireReturns i, TakeDone i])
                    [k..<length (goroutines c)])) = Inr (Some c')"
  using assms
proof (induction "length (goroutines c) - k" arbitrary: c k)
  case 0
  then have "k = length (goroutines c)" by simp
  then have "\<forall>g \<in> set (goroutines c). g = Returned"
    using "0.prems"(4) by (auto simp: in_set_conv_nth)
  then have "live (goroutines c) = 0" by (simp add: live_def filter_empty_conv)
  then have "wg (scheduler c) = 0" using reachable_runtime_inv [OF "0.prems"(1)] by simp
  then show ?case using \<open>k = length (goroutines c)\<close> by simp
next
  case (Suc m)
  then have k: "k < length (goroutines c)" by simp
  from run_step_retire [OF Suc.prems(1) Suc.prems(2) k] obtain c1 c2 where
    s1: "run_step c (FireReturns k) = Inr c1" and s2: "run_step c1 (TakeDone k) = Inr c2"
    and r2: "reachable_runtime c2" and d2: "done_closed (scheduler c2)"
    and g2: "goroutines c2 = (goroutines c)[k := Returned]" by blast
  have l2: "length (goroutines c2) = length (goroutines c)" using g2 by simp
  have m: "m = length (goroutines c2) - Suc k" using Suc.hyps(2) l2 by simp
  have le: "Suc k \<le> length (goroutines c2)" using k l2 by simp
  have al: "\<forall>j<Suc k. goroutines c2 ! j = Returned"
    using Suc.prems(4) g2 k by (auto simp: nth_list_update less_Suc_eq)
  from Suc.hyps(1) [OF m r2 d2 le al] obtain c' where
    w: "wg_Wait c2 (concat (map (\<lambda>i. [FireReturns i, TakeDone i])
                    [Suc k..<length (goroutines c)])) = Inr (Some c')"
    using l2 by auto
  have "[k..<length (goroutines c)] = k # [Suc k..<length (goroutines c)]"
    using k by (simp add: upt_conv_Cons)
  then show ?case using s1 s2 w by simp
qed

lemma Stop_returns_when_callbacks_return:
  assumes "reachable_runtime c" and "\<not> done_closed (scheduler c)"
  shows "\<exists>c'. Stop c (concat (map (\<lambda>i. [FireReturns i, TakeDone i])
                  [0..<length (goroutines c)])) = Inr (Some c')"
proof -
  let ?c1 = "c\<lparr>scheduler := (scheduler c)\<lparr>done_closed := True\<rparr>\<rparr>"
  have cl: "close_done (scheduler c) = Inr ((scheduler c)\<lparr>done_closed := True\<rparr>)"
    using assms(2) by (simp add: close_done_def)
  have r1: "reachable_runtime ?c1" using assms(1) cl by (rule rt_close)
  from wg_Wait_returns [OF r1, of 0] show ?thesis using cl by (simp add: Stop_def)
qed

lemma reachable_sample_runtime: "reachable_runtime sample_runtime"
proof -
  have 1: "reachable_runtime (Start_go NewRuntime 1000000000)" using rt_new by (rule rt_start)
  have s: "scheduler (Start_go NewRuntime 1000000000) = Start NewScheduler 1000000000"
    by (simp add: Start_go_def NewRuntime_def)
  have 2: "reachable_runtime ((Start_go NewRuntime 1000000000)\<lparr>scheduler := sample_queue_b\<rparr>)"
    using 1 sample_queue_b_added by (rule rt_add [where c = "Start_go NewRuntime 1000000000", unfolded s])
  have 3: "reachable_runtime ((Start_go NewRuntime 1000000000)\<lparr>scheduler := sample_queue_b,
             scheduler := sample_queue_ba\<rparr>)"
    using rt_add [OF 2, of "''a''" sample_every_minute 2000000000 sample_queue_ba]
      sample_queue_ba_added by simp
  then show ?thesis by (simp add: Start_go_def NewRuntime_def sample_runtime_def)
qed

lemma reachable_sample_runtime_firing: "reachable_runtime sample_runtime_firing"
proof -
  have "run_step sample_runtime (TakeCase 0 (TimerFired 60000000000)) = Inr sample_runtime_firing"
    by (simp add: run_step_def loop_pass_def sample_queue_fires_b sample_runtime_def
        sample_runtime_firing_def)
  with reachable_sample_runtime show ?thesis by (rule rt_step)
qed

text \<open>
  C3, as amended (\<open>Stop\<close> is not idempotent, and it returns only when the goroutines
  have).  In every state the scheduler and its goroutines can reach: \<open>Stop\<close> on a
  closed channel \<open>done\<close> panics, and on an open one it does not; when \<open>Stop\<close>
  returns, the channel is closed, the wait group's counter is 0 and every scheduler
  goroutine has returned, and every later \<open>Stop\<close> panics; and while a goroutine is
  inside a callback that does not return, \<open>Stop\<close> does not return, whatever the
  goroutines do meanwhile.
\<close>

theorem Stop_once_waits_then_panics:
  assumes "reachable_runtime c"
  shows "(done_closed (scheduler c) \<longrightarrow> Stop c acts = Inl CloseOfClosedChannel) \<and>
         (\<not> done_closed (scheduler c) \<longrightarrow> (\<exists>r. Stop c acts = Inr r)) \<and>
         (\<forall>c'. Stop c acts = Inr (Some c') \<longrightarrow>
            done_closed (scheduler c') \<and> wg (scheduler c') = 0 \<and>
            (\<forall>g \<in> set (goroutines c'). g = Returned) \<and>
            (\<forall>acts'. Stop c' acts' = Inl CloseOfClosedChannel)) \<and>
         (\<forall>i name. \<not> done_closed (scheduler c) \<and> i < length (goroutines c) \<and>
            goroutines c ! i = InFire name \<and> FireReturns i \<notin> set acts \<longrightarrow>
            Stop c acts = Inr None)"
proof (cases "done_closed (scheduler c)")
  case True
  then show ?thesis by (simp add: Stop_def close_done_def)
next
  case False
  let ?c1 = "c\<lparr>scheduler := (scheduler c)\<lparr>done_closed := True\<rparr>\<rparr>"
  have cl: "close_done (scheduler c) = Inr ((scheduler c)\<lparr>done_closed := True\<rparr>)"
    using False by (simp add: close_done_def)
  have r1: "reachable_runtime ?c1" using assms cl by (rule rt_close)
  have st: "Stop c acts = wg_Wait ?c1 acts" using cl by (simp add: Stop_def)
  have a: "\<exists>r. Stop c acts = Inr r" using wg_Wait_no_panic [OF r1, of acts] st by simp
  have b: "\<forall>c'. Stop c acts = Inr (Some c') \<longrightarrow>
            done_closed (scheduler c') \<and> wg (scheduler c') = 0 \<and>
            (\<forall>g \<in> set (goroutines c'). g = Returned) \<and>
            (\<forall>acts'. Stop c' acts' = Inl CloseOfClosedChannel)"
  proof (intro allI impI)
    fix c' assume "Stop c acts = Inr (Some c')"
    then have "wg_Wait ?c1 acts = Inr (Some c')" using st by simp
    from wg_Wait_returned [OF r1 this] have r': "reachable_runtime c'"
      and z: "wg (scheduler c') = 0" and d: "done_closed (scheduler c')" by simp_all
    have "live (goroutines c') = 0" using reachable_runtime_inv [OF r'] z by simp
    then have "\<forall>g \<in> set (goroutines c'). g = Returned" by (rule live_zero)
    then show "done_closed (scheduler c') \<and> wg (scheduler c') = 0 \<and>
            (\<forall>g \<in> set (goroutines c'). g = Returned) \<and>
            (\<forall>acts'. Stop c' acts' = Inl CloseOfClosedChannel)"
      using z d by (simp add: Stop_def close_done_def)
  qed
  have c: "\<forall>i name. \<not> done_closed (scheduler c) \<and> i < length (goroutines c) \<and>
            goroutines c ! i = InFire name \<and> FireReturns i \<notin> set acts \<longrightarrow>
            Stop c acts = Inr None"
  proof (intro allI impI)
    fix i name
    assume h: "\<not> done_closed (scheduler c) \<and> i < length (goroutines c) \<and>
            goroutines c ! i = InFire name \<and> FireReturns i \<notin> set acts"
    then have "i < length (goroutines ?c1)" "goroutines ?c1 ! i = InFire name"
      "FireReturns i \<notin> set acts" by simp_all
    from wg_Wait_blocked [OF r1 this] show "Stop c acts = Inr None" using st by simp
  qed
  show ?thesis using False a b c by blast
qed

theorem Stop_once_waits_then_panics_witness:
  "reachable_runtime sample_runtime_firing \<and>
   \<not> done_closed (scheduler sample_runtime_firing) \<and>
   goroutines sample_runtime_firing ! 0 = InFire ''b'' \<and>
   Stop sample_runtime_firing [TakeCase 0 ResetSignal, TakeDone 0] = Inr None \<and>
   Stop sample_runtime_firing [FireReturns 0, TakeDone 0]
     = Inr (Some \<lparr>scheduler = sample_queue_fired_once\<lparr>timer := Some Stopped, done_closed := True, wg := 0\<rparr>,
                  goroutines = [Returned]\<rparr>) \<and>
   (\<forall>acts'. Stop \<lparr>scheduler = sample_queue_fired_once\<lparr>timer := Some Stopped, done_closed := True, wg := 0\<rparr>,
                  goroutines = [Returned]\<rparr> acts' = Inl CloseOfClosedChannel)"
proof -
  have d: "\<not> done_closed (scheduler sample_runtime_firing)"
    by (simp add: sample_runtime_firing_def sample_queue_fired_once_def)
  have g: "goroutines sample_runtime_firing ! 0 = InFire ''b''"
    by (simp add: sample_runtime_firing_def)
  have l: "0 < length (goroutines sample_runtime_firing)"
    by (simp add: sample_runtime_firing_def)
  have n: "FireReturns 0 \<notin> set [TakeCase 0 ResetSignal, TakeDone 0]" by simp
  have e: "Stop sample_runtime_firing [FireReturns 0, TakeDone 0]
     = Inr (Some \<lparr>scheduler = sample_queue_fired_once\<lparr>timer := Some Stopped, done_closed := True, wg := 0\<rparr>,
                  goroutines = [Returned]\<rparr>)"
    by (simp add: Stop_def close_done_def run_step_def done_case_def sample_runtime_firing_def
        sample_queue_fired_once_def)
  from Stop_once_waits_then_panics [OF reachable_sample_runtime_firing,
      of "[TakeCase 0 ResetSignal, TakeDone 0]"] d g l n
  have 1: "Stop sample_runtime_firing [TakeCase 0 ResetSignal, TakeDone 0] = Inr None" by blast
  from Stop_once_waits_then_panics [OF reachable_sample_runtime_firing,
      of "[FireReturns 0, TakeDone 0]"] e
  have 2: "\<forall>acts'. Stop \<lparr>scheduler = sample_queue_fired_once\<lparr>timer := Some Stopped, done_closed := True, wg := 0\<rparr>,
                  goroutines = [Returned]\<rparr> acts' = Inl CloseOfClosedChannel" by simp
  show ?thesis using reachable_sample_runtime_firing d g e 1 2 by blast
qed

text \<open>
  C3 as stated fails: after \<open>Start\<close>, the first \<open>Stop\<close> returns once the goroutine
  has taken the case \<open>done\<close>, and the second one panics.
\<close>

theorem Stop_twice_panics_counterexample:
  "Stop (Start_go NewRuntime 1000000000) [TakeDone 0]
     = Inr (Some \<lparr>scheduler = \<lparr>heap = [], timer = Some Stopped, done_closed = True,
                               reset_pending = False, wg = 0\<rparr>,
                  goroutines = [Returned]\<rparr>) \<and>
   Stop \<lparr>scheduler = \<lparr>heap = [], timer = Some Stopped, done_closed = True,
                      reset_pending = False, wg = 0\<rparr>,
         goroutines = [Returned]\<rparr> []
     = Inl CloseOfClosedChannel"
  by (simp add: Stop_def close_done_def run_step_def done_case_def Start_go_def NewRuntime_def
      Start_def NewScheduler_def resetTimerLocked_def)

end
